theory Spec2Isabelle
  imports Main "HOL-Library.Word"
begin

unbundle bit_operations_syntax

section \<open>The finish action of the animation scheduler\<close>

text \<open>
  A shallow embedding of \<^verbatim>\<open>packages/core/src/actions/finish.ts\<close>: the function
  \<^verbatim>\<open>checkAnimationShouldBeFinished\<close> and the action \<^verbatim>\<open>finish\<close>.

  Animation calls and Options objects live in a store and are named by identifiers, so
  that sharing (one Options for a whole group of calls) and the intrusive \<^verbatim>\<open>_next\<close>
  links are explicit. The functions that finish.ts imports from other modules
  (\<^verbatim>\<open>validateTweens\<close>, \<^verbatim>\<open>beginCall\<close>, \<^verbatim>\<open>setPropertyValue\<close>, \<^verbatim>\<open>completeCall\<close>)
  and the constant \<^verbatim>\<open>AnimationFlags.STARTED\<close> are parameters, collected in an
  environment record. Each call that finish.ts makes to one of them is
  recorded in a trace, which the collaborators themselves cannot see or change.
\<close>

subsection \<open>Data\<close>

type_synonym call_id = nat
type_synonym opts_id = nat
type_synonym element = nat
type_synonym property = string
type_synonym fn_id = nat
type_synonym callback = nat

text \<open>A queue name is \<^verbatim>\<open>false | string\<close>; \<^verbatim>\<open>undefined\<close> is \<open>None\<close> of the option type.\<close>

datatype queue_name = QFalse | QName string

text \<open>The first argument of the action: \<^verbatim>\<open>maybeQueueName?: string | boolean\<close>.\<close>

datatype maybe_queue = MQUndefined | MQTrue | MQFalse | MQString string

text \<open>
  The entries of a pattern and of a keyframe are strings, numbers or booleans. The type
  of numbers is a parameter \<open>'n\<close>, and so is their conversion to a string.
\<close>

datatype 'n jsval = JStr string | JNum 'n | JBool bool

text \<open>
  A tween sequence is an array of keyframes with a \<^verbatim>\<open>pattern\<close> property. An entry of a
  keyframe that is \<^verbatim>\<open>null\<close> or \<^verbatim>\<open>undefined\<close> is \<open>None\<close>.
\<close>

record 'n Sequence =
  pattern :: "'n jsval list option"
  steps :: "'n jsval option list list"

record 'n Tween =
  sequence :: "'n Sequence option"
  fn :: fn_id

text \<open>
  The counter \<^verbatim>\<open>_started?: number\<close> of an Options object: absent, not a number, or
  an integer.
\<close>

datatype counter = CUndefined | CNaN | CNum int

record Options =
  o_queue :: "queue_name option"
  o_begin :: "callback option"
  o_started :: counter
  o_first :: "call_id option"

text \<open>
  An animation call. The field \<open>elapsedTime\<close> is the time elapsed so far, which the tick
  engine advances; finish.ts never reads it.
\<close>

record 'n AnimationCall =
  element :: "element option"
  tweens :: "(property \<times> 'n Tween) list"
  options :: "opts_id option"
  queue :: "queue_name option"
  flags :: "32 word"
  c_next :: "call_id option"
  elapsedTime :: int

text \<open>
  The global scheduler state together with the store of calls and Options objects and
  the process default queue (\<^verbatim>\<open>defaults.queue\<close>).
\<close>

record 'n State =
  first :: "call_id option"
  firstNew :: "call_id option"
  calls :: "call_id \<Rightarrow> 'n AnimationCall"
  opts :: "opts_id \<Rightarrow> Options"
  defaults_queue :: queue_name

text \<open>
  The \<^verbatim>\<open>elements\<close> of the action's \<^verbatim>\<open>this\<close>: an array-like of elements, which may be
  an Animation (\<open>isAnimation\<close>) carrying \<^verbatim>\<open>velocity.animations\<close> and \<^verbatim>\<open>then\<close>.
\<close>

record Elements =
  items :: "element list"
  isAnimation :: bool
  animations :: "call_id list option"
  has_then :: bool

record PromiseHandler =
  has_resolver :: bool

record ActionThis =
  elements :: "Elements option"
  promiseHandler :: "PromiseHandler option"

subsection \<open>Collaborators, trace and results\<close>

record 'n Env =
  validateTweens :: "call_id \<Rightarrow> 'n State \<Rightarrow> 'n State"
  beginCall :: "call_id \<Rightarrow> 'n State \<Rightarrow> 'n State"
  setPropertyValue :: "element option \<Rightarrow> property \<Rightarrow> string \<Rightarrow> fn_id \<Rightarrow> 'n State \<Rightarrow> 'n State"
  completeCall :: "call_id \<Rightarrow> 'n State \<Rightarrow> 'n State"
  STARTED :: "32 word"
  numberToString :: "'n \<Rightarrow> string"
  thenResolver :: "'n State \<Rightarrow> 'n State"
  resolver :: "Elements \<Rightarrow> 'n State \<Rightarrow> 'n State"

text \<open>
  One event per call to a collaborator. \<open>BeginCall a o\<close> is \<^verbatim>\<open>beginCall(animation)\<close>
  for the call \<open>a\<close>, made while the local \<^verbatim>\<open>options\<close> is the Options object \<open>o\<close>.
\<close>

datatype event =
    ValidateTweens call_id
  | BeginCall call_id opts_id
  | SetPropertyValue "element option" property string fn_id
  | CompleteCall call_id
  | ThenResolver
  | Resolver

record 'n mstate =
  heap :: "'n State"
  trace :: "event list"

datatype error = TypeError

datatype 'n result = Normal "'n mstate" | Throw error "'n mstate"

fun state_of :: "'n result \<Rightarrow> 'n mstate" where
  "state_of (Normal s) = s"
| "state_of (Throw e s) = s"

fun is_Normal :: "'n result \<Rightarrow> bool" where
  "is_Normal (Normal s) = True"
| "is_Normal (Throw e s) = False"

definition collab :: "event \<Rightarrow> ('n State \<Rightarrow> 'n State) \<Rightarrow> 'n mstate \<Rightarrow> 'n mstate" where
  "collab e f s = \<lparr>heap = f (heap s), trace = trace s @ [e]\<rparr>"

subsection \<open>checkAnimationShouldBeFinished\<close>

text \<open>\<^verbatim>\<open>animation.queue ?? animation.options?.queue ?? defaultQueue\<close>\<close>

definition effectiveQueue :: "'n State \<Rightarrow> call_id \<Rightarrow> queue_name option \<Rightarrow> queue_name option" where
  "effectiveQueue h a defaultQueue =
     (case queue (calls h a) of
        Some q \<Rightarrow> Some q
      | None \<Rightarrow>
          (case (case options (calls h a) of None \<Rightarrow> None | Some ob \<Rightarrow> o_queue (opts h ob)) of
             Some q \<Rightarrow> Some q
           | None \<Rightarrow> defaultQueue))"

text \<open>
  \<^verbatim>\<open>options._started++\<close>: the old value converted to a number, and the value stored.
\<close>

fun toNumber :: "counter \<Rightarrow> counter" where
  "toNumber CUndefined = CNaN"
| "toNumber CNaN = CNaN"
| "toNumber (CNum n) = CNum n"

fun increment :: "counter \<Rightarrow> counter" where
  "increment (CNum n) = CNum (n + 1)"
| "increment c = CNaN"

definition upd_opts :: "opts_id \<Rightarrow> (Options \<Rightarrow> Options) \<Rightarrow> 'n mstate \<Rightarrow> 'n mstate" where
  "upd_opts ob f s = s\<lparr>heap := (heap s)\<lparr>opts := (opts (heap s))(ob := f (opts (heap s) ob))\<rparr>\<rparr>"

definition upd_call :: "call_id \<Rightarrow> ('n AnimationCall \<Rightarrow> 'n AnimationCall) \<Rightarrow> 'n mstate \<Rightarrow> 'n mstate" where
  "upd_call a f s = s\<lparr>heap := (heap s)\<lparr>calls := (calls (heap s))(a := f (calls (heap s) a))\<rparr>\<rparr>"

text \<open>
  Lines 29 to 47: the begin-time work of a call that is not yet STARTED. The access
  \<^verbatim>\<open>options._started\<close> throws a TypeError when the call has no Options.
\<close>

definition beginBlock :: "'n Env \<Rightarrow> call_id \<Rightarrow> 'n mstate \<Rightarrow> 'n result" where
  "beginBlock env a s =
     (if flags (calls (heap s) a) AND STARTED env = 0 then
        (case options (calls (heap s) a) of
           None \<Rightarrow> Throw TypeError s
         | Some ob \<Rightarrow>
             let old = toNumber (o_started (opts (heap s) ob));
                 s1 = upd_opts ob (\<lambda>r. r\<lparr>o_started := increment old\<rparr>) s;
                 s2 = (if old = CNum 0 then
                         (let s' = upd_opts ob (\<lambda>r. r\<lparr>o_first := Some a\<rparr>) s1 in
                          (case o_begin (opts (heap s') ob) of
                             Some cb \<Rightarrow>
                               upd_opts ob (\<lambda>r. r\<lparr>o_begin := None\<rparr>)
                                 (collab (BeginCall a ob) (beginCall env a) s')
                           | None \<Rightarrow> s'))
                       else s1)
             in Normal (upd_call a (\<lambda>c. c\<lparr>flags := flags c OR STARTED env\<rparr>) s2))
      else Normal s)"

text \<open>String conversion of \<^verbatim>\<open>currentValue += ...\<close>.\<close>

fun toString :: "'n Env \<Rightarrow> 'n jsval \<Rightarrow> string" where
  "toString env (JStr s) = s"
| "toString env (JNum n) = numberToString env n"
| "toString env (JBool b) = (if b then ''true'' else ''false'')"

text \<open>\<^verbatim>\<open>endValues[i]\<close>: reading an array beyond its length gives \<^verbatim>\<open>undefined\<close>.\<close>

definition at_index :: "'a option list \<Rightarrow> nat \<Rightarrow> 'a option" where
  "at_index xs i = (if i < length xs then xs ! i else None)"

text \<open>Lines 59 to 63: the loop over the pattern, from index \<open>i\<close> with the string built so far.\<close>

function walkPattern :: "'n Env \<Rightarrow> 'n jsval list \<Rightarrow> 'n jsval option list \<Rightarrow> nat \<Rightarrow> string \<Rightarrow> string" where
  "walkPattern env pat endValues i currentValue =
     (if i < length pat then
        walkPattern env pat endValues (i + 1)
          (currentValue @ (case at_index endValues i of
                             None \<Rightarrow> toString env (pat ! i)
                           | Some v \<Rightarrow> toString env v))
      else currentValue)"
  by pat_completeness auto
termination
  by (relation "measure (\<lambda>(env, pat, endValues, i, currentValue). length pat - i)") auto

declare walkPattern.simps [simp del]

text \<open>
  Lines 51 to 64: the value committed for one tween. \<^verbatim>\<open>sequence.pattern\<close> throws when the
  tween has no sequence; \<^verbatim>\<open>endValues[i]\<close> throws when the sequence has no keyframe and
  the loop runs at least once.
\<close>

definition finalValue :: "'n Env \<Rightarrow> 'n Tween \<Rightarrow> error + string" where
  "finalValue env tween =
     (case sequence tween of
        None \<Rightarrow> Inl TypeError
      | Some sq \<Rightarrow>
          (case pattern sq of
             None \<Rightarrow> Inr ''''
           | Some pat \<Rightarrow>
               if steps sq = [] then (if pat = [] then Inr '''' else Inl TypeError)
               else Inr (walkPattern env pat (last (steps sq)) 0 '''')))"

text \<open>
  Lines 49 to 66: the loop over the property names of \<^verbatim>\<open>animation.tweens\<close>. Each
  iteration reads \<^verbatim>\<open>animation.tweens[property]\<close> and \<^verbatim>\<open>animation.element\<close> again.
\<close>

fun finalizeTweens :: "'n Env \<Rightarrow> call_id \<Rightarrow> property list \<Rightarrow> 'n mstate \<Rightarrow> 'n result" where
  "finalizeTweens env a [] s = Normal s"
| "finalizeTweens env a (p # ps) s =
     (case map_of (tweens (calls (heap s) a)) p of
        None \<Rightarrow> Throw TypeError s
      | Some tween \<Rightarrow>
          (case finalValue env tween of
             Inl e \<Rightarrow> Throw e s
           | Inr currentValue \<Rightarrow>
               finalizeTweens env a ps
                 (collab (SetPropertyValue (element (calls (heap s) a)) p currentValue (fn tween))
                    (setPropertyValue env (element (calls (heap s) a)) p currentValue (fn tween)) s)))"

text \<open>Lines 29 to 67: the body of the queue test.\<close>

definition forceComplete :: "'n Env \<Rightarrow> call_id \<Rightarrow> 'n mstate \<Rightarrow> 'n result" where
  "forceComplete env a s =
     (case beginBlock env a s of
        Throw e s' \<Rightarrow> Throw e s'
      | Normal s2 \<Rightarrow>
          (case finalizeTweens env a (map fst (tweens (calls (heap s2) a))) s2 of
             Throw e s' \<Rightarrow> Throw e s'
           | Normal s3 \<Rightarrow> Normal (collab (CompleteCall a) (completeCall env a) s3)))"

definition checkAnimationShouldBeFinished ::
  "'n Env \<Rightarrow> call_id \<Rightarrow> queue_name option \<Rightarrow> queue_name option \<Rightarrow> 'n mstate \<Rightarrow> 'n result" where
  "checkAnimationShouldBeFinished env animation queueName defaultQueue s =
     (let s1 = collab (ValidateTweens animation) (validateTweens env animation) s in
      if queueName = None \<or> queueName = effectiveQueue (heap s1) animation defaultQueue
      then forceComplete env animation s1
      else Normal s1)"

subsection \<open>finish\<close>

text \<open>Lines 97 to 99: the loop over the calls of a bound animation set.\<close>

fun finishAnimations ::
  "'n Env \<Rightarrow> queue_name option \<Rightarrow> queue_name option \<Rightarrow> call_id list \<Rightarrow> 'n mstate \<Rightarrow> 'n result" where
  "finishAnimations env queueName defaultQueue [] s = Normal s"
| "finishAnimations env queueName defaultQueue (a # as) s =
     (case checkAnimationShouldBeFinished env a queueName defaultQueue s of
        Throw e s' \<Rightarrow> Throw e s'
      | Normal s' \<Rightarrow> finishAnimations env queueName defaultQueue as s')"

text \<open>Lines 101 to 103. The loop ends only when a validation empties the staging list.\<close>

partial_function (option) drainFirstNew :: "'n Env \<Rightarrow> 'n mstate \<Rightarrow> 'n mstate option" where
  "drainFirstNew env s =
     (case firstNew (heap s) of
        None \<Rightarrow> Some s
      | Some a \<Rightarrow> drainFirstNew env (collab (ValidateTweens a) (validateTweens env a) s))"

text \<open>\<^verbatim>\<open>!elements || elements.includes(activeCall.element)\<close>\<close>

definition targeted :: "Elements option \<Rightarrow> element option \<Rightarrow> bool" where
  "targeted els e =
     (case els of
        None \<Rightarrow> True
      | Some es \<Rightarrow> (case e of None \<Rightarrow> False | Some x \<Rightarrow> x \<in> set (items es)))"

text \<open>
  Lines 104 to 112: the walk of the active list from \<open>activeCall\<close>. The successor
  \<^verbatim>\<open>nextCall\<close> is read before the check runs.
\<close>

partial_function (option) sweep ::
  "'n Env \<Rightarrow> Elements option \<Rightarrow> queue_name option \<Rightarrow> queue_name option \<Rightarrow> bool \<Rightarrow>
   call_id option \<Rightarrow> 'n mstate \<Rightarrow> 'n result option" where
  "sweep env els queueName defaultQueue finishAll activeCall s =
     (case activeCall of
        None \<Rightarrow> Some (Normal s)
      | Some a \<Rightarrow>
          if finishAll \<or> Some a \<noteq> firstNew (heap s) then
            (let nextCall = c_next (calls (heap s) a) in
             (case (if targeted els (element (calls (heap s) a))
                    then checkAnimationShouldBeFinished env a queueName defaultQueue s
                    else Normal s) of
                Throw e s' \<Rightarrow> Some (Throw e s')
              | Normal s' \<Rightarrow>
                  sweep env els queueName defaultQueue finishAll
                    (case nextCall of Some n \<Rightarrow> Some n | None \<Rightarrow> firstNew (heap s')) s'))
          else Some (Normal s))"

text \<open>Lines 114 to 120: the notification of a waiting caller.\<close>

definition notify :: "'n Env \<Rightarrow> ActionThis \<Rightarrow> Elements \<Rightarrow> 'n mstate \<Rightarrow> 'n mstate" where
  "notify env this els s =
     (case promiseHandler this of
        None \<Rightarrow> s
      | Some ph \<Rightarrow>
          if isAnimation els \<and> animations els \<noteq> None \<and> has_then els
          then collab ThenResolver (thenResolver env) s
          else if has_resolver ph then collab Resolver (resolver env els) s
          else s)"

text \<open>
  Modelled from the spec: \<^verbatim>\<open>validateQueue\<close> of \<^verbatim>\<open>core/options\<close> is not part of the
  sources at hand. The queue name argument accepts: omitted (any queue), a named
  string, \<^verbatim>\<open>false\<close> (the lane without a queue), or the literal \<^verbatim>\<open>true\<close>, a shorthand
  that ignores queue filtering.
\<close>

fun validateQueue :: "maybe_queue \<Rightarrow> queue_name option" where
  "validateQueue MQUndefined = None"
| "validateQueue MQTrue = None"
| "validateQueue MQFalse = Some QFalse"
| "validateQueue (MQString name) = Some (QName name)"

text \<open>
  The action. The result is \<open>None\<close> when a loop of the global branch does
  not end.
\<close>

definition finish ::
  "'n Env \<Rightarrow> ActionThis \<Rightarrow> maybe_queue \<Rightarrow> bool \<Rightarrow> 'n mstate \<Rightarrow> 'n result option" where
  "finish env this maybeQueueName finishAll s =
     (let queueName = validateQueue maybeQueueName;
          defaultQueue = Some (defaults_queue (heap s)) in
      case elements this of
        None \<Rightarrow> Some (Normal s)
      | Some els \<Rightarrow>
          if items els = [] then Some (Normal s)
          else
            (let finishAll' = (if maybeQueueName = MQTrue then True else finishAll);
                 r = (case (if isAnimation els then animations els else None) of
                        Some anims \<Rightarrow> Some (finishAnimations env queueName defaultQueue anims s)
                      | None \<Rightarrow>
                          (case drainFirstNew env s of
                             None \<Rightarrow> None
                           | Some s1 \<Rightarrow>
                               sweep env (elements this) queueName defaultQueue finishAll'
                                 (first (heap s1)) s1))
             in (case r of
                   None \<Rightarrow> None
                 | Some (Throw e s') \<Rightarrow> Some (Throw e s')
                 | Some (Normal s') \<Rightarrow> Some (Normal (notify env this els s')))))"

subsection \<open>The final value in the words of the specification\<close>

text \<open>
  The literal is built by walking the pattern template index by index and substituting,
  at each index, the final keyframe's value when it is non-null and the pattern's
  literal at that index otherwise.
\<close>

definition finalKeyframe :: "'n Sequence \<Rightarrow> 'n jsval option list" where
  "finalKeyframe sq = (if steps sq = [] then [] else last (steps sq))"

definition literalAt :: "'n Env \<Rightarrow> 'n jsval list \<Rightarrow> 'n jsval option list \<Rightarrow> nat \<Rightarrow> string" where
  "literalAt env pat final i =
     (case at_index final i of
        Some v \<Rightarrow> toString env v
      | None \<Rightarrow> toString env (pat ! i))"

definition reconstructed :: "'n Env \<Rightarrow> 'n jsval list \<Rightarrow> 'n jsval option list \<Rightarrow> string" where
  "reconstructed env pat final = concat (map (literalAt env pat final) [0..<length pat])"

subsection \<open>The begin step in the words of the specification\<close>

text \<open>
  If the call has not yet been marked STARTED, \<^verbatim>\<open>_started\<close> is incremented; if this was
  the transition from 0 to 1 and \<^verbatim>\<open>options.begin\<close> exists, it is invoked. These are the
  calls of \<^verbatim>\<open>beginCall\<close> to expect of the begin step in the state \<open>h\<close>.
\<close>

definition beginEvents :: "'n Env \<Rightarrow> call_id \<Rightarrow> 'n State \<Rightarrow> event list" where
  "beginEvents env a h =
     (if flags (calls h a) AND STARTED env = 0 then
        (case options (calls h a) of
           None \<Rightarrow> []
         | Some ob \<Rightarrow>
             if o_started (opts h ob) = CNum 0 \<and> o_begin (opts h ob) \<noteq> None
             then [BeginCall a ob] else [])
      else [])"

subsection \<open>Observations on traces\<close>

text \<open>The calls validated, in order.\<close>

fun validated :: "event list \<Rightarrow> call_id list" where
  "validated [] = []"
| "validated (ValidateTweens a # es) = a # validated es"
| "validated (e # es) = validated es"

text \<open>The events that the check of the call \<open>a\<close> emits after its validation.\<close>

fun about :: "call_id \<Rightarrow> event \<Rightarrow> bool" where
  "about a (ValidateTweens b) = False"
| "about a (BeginCall b ob) = (b = a)"
| "about a (SetPropertyValue el p v f) = True"
| "about a (CompleteCall b) = (b = a)"
| "about a ThenResolver = False"
| "about a Resolver = False"

fun isBeginOf :: "opts_id \<Rightarrow> event \<Rightarrow> bool" where
  "isBeginOf ob (BeginCall a ob') = (ob' = ob)"
| "isBeginOf ob e = False"

fun isBegin :: "event \<Rightarrow> bool" where
  "isBegin (BeginCall a ob) = True"
| "isBegin e = False"

fun isSetPropertyValue :: "event \<Rightarrow> bool" where
  "isSetPropertyValue (SetPropertyValue el p v f) = True"
| "isSetPropertyValue e = False"

text \<open>How often \<^verbatim>\<open>begin\<close> of the Options object \<open>ob\<close> was invoked.\<close>

definition begun :: "opts_id \<Rightarrow> event list \<Rightarrow> nat" where
  "begun ob es = length (filter (isBeginOf ob) es)"

text \<open>How often \<^verbatim>\<open>completeCall\<close> was invoked on the call \<open>a\<close>.\<close>

definition completed :: "call_id \<Rightarrow> event list \<Rightarrow> nat" where
  "completed a es = length (filter (\<lambda>e. e = CompleteCall a) es)"

subsection \<open>Conditions on the collaborators\<close>

text \<open>A collaborator \<open>f\<close> leaves the observation \<open>obs\<close> of the state as it is.\<close>

definition preserves :: "('n State \<Rightarrow> 'x) \<Rightarrow> ('n State \<Rightarrow> 'n State) \<Rightarrow> bool" where
  "preserves obs f \<longleftrightarrow> (\<forall>h. obs (f h) = obs h)"

definition framed :: "'n Env \<Rightarrow> ('n State \<Rightarrow> 'x) \<Rightarrow> bool" where
  "framed env obs \<longleftrightarrow>
     (\<forall>a. preserves obs (validateTweens env a)) \<and>
     (\<forall>a. preserves obs (beginCall env a)) \<and>
     (\<forall>el p v f. preserves obs (setPropertyValue env el p v f)) \<and>
     (\<forall>a. preserves obs (completeCall env a)) \<and>
     preserves obs (thenResolver env) \<and>
     (\<forall>els. preserves obs (resolver env els))"

text \<open>
  An observation that the assignments of finish.ts itself do not reach: it depends
  neither on the Options objects nor on the flags of a call.
\<close>

definition stable :: "('n State \<Rightarrow> 'x) \<Rightarrow> bool" where
  "stable obs \<longleftrightarrow>
     (\<forall>h ob r. obs (h\<lparr>opts := (opts h)(ob := r)\<rparr>) = obs h) \<and>
     (\<forall>h a w. obs (h\<lparr>calls := (calls h)(a := (calls h a)\<lparr>flags := w\<rparr>)\<rparr>) = obs h)"

text \<open>The fields of the Options object \<open>ob\<close> that the begin-time work reads and writes.\<close>

definition beginFields :: "opts_id \<Rightarrow> 'n State \<Rightarrow> counter \<times> call_id option \<times> callback option" where
  "beginFields ob h = (o_started (opts h ob), o_first (opts h ob), o_begin (opts h ob))"

text \<open>A counter that was a number \<open>c\<close> is a number \<open>c'\<close> that is not smaller.\<close>

definition notReset :: "counter \<Rightarrow> counter \<Rightarrow> bool" where
  "notReset c c' \<longleftrightarrow> (\<forall>n. c = CNum n \<longrightarrow> (\<exists>m\<ge>n. c' = CNum m))"

text \<open>
  The begin-once invariant of an Options object \<open>ob\<close>: its \<^verbatim>\<open>begin\<close> was invoked at most
  once, and once it was, \<^verbatim>\<open>_first\<close> is the call it was invoked for, \<^verbatim>\<open>begin\<close> is cleared
  and \<^verbatim>\<open>_started\<close> is a positive number.
\<close>

definition beginInv :: "opts_id \<Rightarrow> 'n mstate \<Rightarrow> bool" where
  "beginInv ob s \<longleftrightarrow>
     begun ob (trace s) \<le> 1 \<and>
     (\<forall>a. BeginCall a ob \<in> set (trace s) \<longrightarrow>
        o_first (opts (heap s) ob) = Some a \<and>
        o_begin (opts (heap s) ob) = None \<and>
        (\<exists>n\<ge>1. o_started (opts (heap s) ob) = CNum n))"

subsection \<open>A stretch of the walk\<close>


subsection \<open>Example collaborators and states\<close>

text \<open>The decimal numeral of an integer, as \<^verbatim>\<open>Number.prototype.toString\<close> prints it.\<close>

function natToString :: "nat \<Rightarrow> string" where
  "natToString n =
     (if n < 10 then [''0123456789'' ! n]
      else natToString (n div 10) @ [''0123456789'' ! (n mod 10)])"
  by pat_completeness auto
termination
  by (relation "measure (\<lambda>n. n)") auto

declare natToString.simps [simp del]

definition intToString :: "int \<Rightarrow> string" where
  "intToString i = (if i < 0 then ''-'' @ natToString (nat (- i)) else natToString (nat i))"

text \<open>
  Modelled from the spec: the resolution of a tween, a step of \<^verbatim>\<open>validateTweens\<close>, is not
  part of the sources at hand. A Tween sequence that is still unresolved is resolved, and
  a resolved one is left as it is. The sequence put in stands for what the parser of
  property values yields.
\<close>

definition resolveTween :: "int Tween \<Rightarrow> int Tween" where
  "resolveTween t =
     (case sequence t of
        None \<Rightarrow> t\<lparr>sequence := Some \<lparr>pattern = None, steps = []\<rparr>\<rparr>
      | Some sq \<Rightarrow> t)"

text \<open>
  Modelled from the spec: \<^verbatim>\<open>validateTweens\<close> of \<^verbatim>\<open>core/tweens\<close> is not part of the
  sources at hand. It lazily resolves any still-unresolved Tween sequence of the call
  and is idempotent; validating a staged call takes it out of the staging list.
\<close>

definition exValidateTweens :: "call_id \<Rightarrow> int State \<Rightarrow> int State" where
  "exValidateTweens a h =
     (let h1 = (if firstNew h = Some a then h\<lparr>firstNew := c_next (calls h a)\<rparr> else h)
      in h1\<lparr>calls := (calls h1)
              (a := (calls h1 a)\<lparr>tweens := map (\<lambda>(p, t). (p, resolveTween t)) (tweens (calls h1 a))\<rparr>)\<rparr>)"

text \<open>
  Modelled from the spec: \<^verbatim>\<open>completeCall\<close> of \<^verbatim>\<open>core/complete\<close> is not part of the
  sources at hand. It unlinks the call from the list that holds it; here, from the head
  of the active list.
\<close>

definition exCompleteCall :: "call_id \<Rightarrow> int State \<Rightarrow> int State" where
  "exCompleteCall a h = (if first h = Some a then h\<lparr>first := c_next (calls h a)\<rparr> else h)"

text \<open>
  A \<^verbatim>\<open>completeCall\<close> whose complete callback, for the call 0, enqueues the call 1: the
  new call is linked into the active list and becomes the head of the staging list.
\<close>

definition exStage :: "call_id \<Rightarrow> int State \<Rightarrow> int State" where
  "exStage b h =
     h\<lparr>first := (case first h of None \<Rightarrow> Some b | Some x \<Rightarrow> Some x),
       firstNew := (case firstNew h of None \<Rightarrow> Some b | Some x \<Rightarrow> Some x)\<rparr>"

definition exEnqueueingCompleteCall :: "call_id \<Rightarrow> int State \<Rightarrow> int State" where
  "exEnqueueingCompleteCall a h = (if a = 0 then exStage 1 (exCompleteCall a h) else exCompleteCall a h)"

definition exEnv :: "int Env" where
  "exEnv = \<lparr>validateTweens = exValidateTweens,
            beginCall = (\<lambda>a h. h),
            setPropertyValue = (\<lambda>el p v f h. h),
            completeCall = exCompleteCall,
            STARTED = 4,
            numberToString = intToString,
            thenResolver = (\<lambda>h. h),
            resolver = (\<lambda>els h. h)\<rparr>"

text \<open>Collaborators that leave the active list and the staging list alone.\<close>

definition exInertEnv :: "int Env" where
  "exInertEnv = exEnv\<lparr>validateTweens := (\<lambda>a h. h), completeCall := (\<lambda>a h. h)\<rparr>"

definition exEnqueueingEnv :: "int Env" where
  "exEnqueueingEnv = exEnv\<lparr>completeCall := exEnqueueingCompleteCall\<rparr>"

text \<open>
  The call of the specification's example: property \<open>x\<close>, pattern \<open>["", "px"]\<close>, a single
  final keyframe \<open>[100]\<close>; \<open>t\<close> is the time elapsed so far.
\<close>

definition exCall :: "int \<Rightarrow> int AnimationCall" where
  "exCall t =
     \<lparr>element = Some 7,
      tweens = [(''x'', \<lparr>sequence = Some \<lparr>pattern = Some [JStr '''', JStr ''px''],
                                        steps = [[Some (JNum 100)]]\<rparr>,
                        fn = 0\<rparr>)],
      options = Some 0, queue = None, flags = 0, c_next = None, elapsedTime = t\<rparr>"

definition exOptions :: Options where
  "exOptions = \<lparr>o_queue = Some (QName ''y''), o_begin = Some 0, o_started = CNum 0, o_first = None\<rparr>"

text \<open>A state whose calls all share the Options object 0; the call 0 is the active list.\<close>

definition exHeap :: "int \<Rightarrow> int State" where
  "exHeap t = \<lparr>first = Some 0, firstNew = None, calls = (\<lambda>a. exCall t), opts = (\<lambda>ob. exOptions),
               defaults_queue = QName ''''\<rparr>"

definition exStart :: "int mstate" where
  "exStart = \<lparr>heap = exHeap 250, trace = []\<rparr>"

text \<open>A call with a tween that is not yet resolved and one without a pattern.\<close>

definition exUnresolvedHeap :: "int State" where
  "exUnresolvedHeap =
     (exHeap 0)\<lparr>calls := (\<lambda>a. (exCall 0)\<lparr>tweens := [(''opacity'', \<lparr>sequence = None, fn = 1\<rparr>)]\<rparr>)\<rparr>"

definition exNoPatternHeap :: "int State" where
  "exNoPatternHeap =
     (exHeap 0)\<lparr>calls := (\<lambda>a. (exCall 0)\<lparr>tweens :=
        [(''display'', \<lparr>sequence = Some \<lparr>pattern = None, steps = [[Some (JStr ''none'')]]\<rparr>, fn = 2\<rparr>)]\<rparr>)\<rparr>"

text \<open>The element sets of an invocation: unbound, bound to the calls 0 and 1, and empty.\<close>

definition exElements :: Elements where
  "exElements = \<lparr>items = [7], isAnimation = False, animations = None, has_then = False\<rparr>"

definition exGlobalThis :: ActionThis where
  "exGlobalThis = \<lparr>elements = Some exElements, promiseHandler = Some \<lparr>has_resolver = True\<rparr>\<rparr>"

definition exBoundThis :: ActionThis where
  "exBoundThis =
     \<lparr>elements = Some (exElements\<lparr>isAnimation := True, animations := Some [0, 1]\<rparr>),
      promiseHandler = Some \<lparr>has_resolver = True\<rparr>\<rparr>"

definition exEmptyThis :: ActionThis where
  "exEmptyThis = \<lparr>elements = Some (exElements\<lparr>items := []\<rparr>), promiseHandler = Some \<lparr>has_resolver = True\<rparr>\<rparr>"

text \<open>
  A state in which the call 1, the one that the completion of the call 0 enqueues,
  animates an element outside the element set of the invocation.
\<close>

definition exOutsideHeap :: "int State" where
  "exOutsideHeap = (exHeap 250)\<lparr>calls := (\<lambda>a. exCall 250)(1 := (exCall 250)\<lparr>element := Some 9\<rparr>)\<rparr>"

text \<open>
  A state with the active list 2, 0, 3, where the call 3 animates another element and
  is staged.
\<close>

definition exListHeap :: "int State" where
  "exListHeap =
     (exHeap 250)\<lparr>first := Some 2, firstNew := Some 3,
                   calls := (\<lambda>a. exCall 250)
                     (0 := (exCall 250)\<lparr>c_next := Some 3\<rparr>,
                      2 := (exCall 250)\<lparr>c_next := Some 0\<rparr>,
                      3 := (exCall 250)\<lparr>element := Some 9\<rparr>)\<rparr>"

section \<open>Properties\<close>

subsection \<open>States and traces\<close>

lemma heap_collab [simp]: "heap (collab e f s) = f (heap s)"
  by (simp add: collab_def)

lemma trace_collab [simp]: "trace (collab e f s) = trace s @ [e]"
  by (simp add: collab_def)

lemma trace_upd_opts [simp]: "trace (upd_opts ob f s) = trace s"
  by (simp add: upd_opts_def)

lemma trace_upd_call [simp]: "trace (upd_call a f s) = trace s"
  by (simp add: upd_call_def)

lemma heap_upd_opts [simp]:
  "heap (upd_opts ob f s) = (heap s)\<lparr>opts := (opts (heap s))(ob := f (opts (heap s) ob))\<rparr>"
  by (simp add: upd_opts_def)

lemma heap_upd_call [simp]:
  "heap (upd_call a f s) = (heap s)\<lparr>calls := (calls (heap s))(a := f (calls (heap s) a))\<rparr>"
  by (simp add: upd_call_def)

lemma beginBlock_trace:
  "\<exists>es. trace (state_of (beginBlock env a s)) = trace s @ es \<and>
        (\<forall>e \<in> set es. \<exists>ob. e = BeginCall a ob)"
  by (auto simp: beginBlock_def Let_def split: option.splits)

lemma finalizeTweens_trace:
  "\<exists>es. trace (state_of (finalizeTweens env a ps s)) = trace s @ es \<and>
        (\<forall>e \<in> set es. isSetPropertyValue e) \<and>
        (is_Normal (finalizeTweens env a ps s) \<longrightarrow> length es = length ps)"
proof (induction ps arbitrary: s)
  case Nil
  then show ?case by simp
next
  case (Cons p ps)
  show ?case
  proof (cases "map_of (tweens (calls (heap s) a)) p")
    case None
    then show ?thesis by simp
  next
    case (Some tween)
    show ?thesis
    proof (cases "finalValue env tween")
      case (Inl e)
      with Some show ?thesis by simp
    next
      case (Inr v)
      let ?ev = "SetPropertyValue (element (calls (heap s) a)) p v (fn tween)"
      let ?s' = "collab ?ev (setPropertyValue env (element (calls (heap s) a)) p v (fn tween)) s"
      have step: "finalizeTweens env a (p # ps) s = finalizeTweens env a ps ?s'"
        using Some Inr by simp
      from Cons.IH [of ?s'] obtain es where
        es: "trace (state_of (finalizeTweens env a ps ?s')) = trace ?s' @ es"
            "\<forall>e \<in> set es. isSetPropertyValue e"
            "is_Normal (finalizeTweens env a ps ?s') \<longrightarrow> length es = length ps"
        by blast
      have "trace (state_of (finalizeTweens env a (p # ps) s)) = trace s @ (?ev # es)"
        using step es(1) by simp
      moreover have "\<forall>e \<in> set (?ev # es). isSetPropertyValue e"
        using es(2) by simp
      moreover have "is_Normal (finalizeTweens env a (p # ps) s) \<longrightarrow>
                     length (?ev # es) = length (p # ps)"
        using step es(3) by simp
      ultimately show ?thesis by blast
    qed
  qed
qed

lemma forceComplete_trace:
  "\<exists>es. trace (state_of (forceComplete env a s)) = trace s @ es \<and> (\<forall>e \<in> set es. about a e)"
proof -
  obtain es1 where es1: "trace (state_of (beginBlock env a s)) = trace s @ es1"
      "\<forall>e \<in> set es1. \<exists>ob. e = BeginCall a ob"
    using beginBlock_trace by blast
  have ab1: "\<forall>e \<in> set es1. about a e" using es1(2) by auto
  show ?thesis
  proof (cases "beginBlock env a s")
    case (Throw e s')
    then have "trace (state_of (forceComplete env a s)) = trace s @ es1"
      using es1(1) by (simp add: forceComplete_def)
    with ab1 show ?thesis by blast
  next
    case (Normal s2)
    let ?ps = "map fst (tweens (calls (heap s2) a))"
    obtain es2 where es2: "trace (state_of (finalizeTweens env a ?ps s2)) = trace s2 @ es2"
      "\<forall>e \<in> set es2. isSetPropertyValue e"
      using finalizeTweens_trace by blast
    have ab2: "\<forall>e \<in> set es2. about a e"
    proof
      fix e assume "e \<in> set es2"
      then have "isSetPropertyValue e" using es2(2) by simp
      then show "about a e" by (cases e) simp_all
    qed
    have t2: "trace s2 = trace s @ es1" using es1(1) Normal by simp
    show ?thesis
    proof (cases "finalizeTweens env a ?ps s2")
      case (Throw e s')
      then have "trace (state_of (forceComplete env a s)) = trace s @ (es1 @ es2)"
        using Normal es2(1) t2 by (simp add: forceComplete_def)
      moreover have "\<forall>e \<in> set (es1 @ es2). about a e" using ab1 ab2 by auto
      ultimately show ?thesis by blast
    next
      case (Normal s3)
      then have "trace (state_of (forceComplete env a s)) = trace s @ (es1 @ es2 @ [CompleteCall a])"
        using \<open>beginBlock env a s = Normal s2\<close> es2(1) t2 by (simp add: forceComplete_def)
      moreover have "\<forall>e \<in> set (es1 @ es2 @ [CompleteCall a]). about a e"
        using ab1 ab2 by auto
      ultimately show ?thesis by blast
    qed
  qed
qed

lemma forceComplete_Normal_completes:
  "forceComplete env a s = Normal s' \<Longrightarrow> CompleteCall a \<in> set (trace s')"
  by (auto simp: forceComplete_def split: result.splits)

lemma check_trace:
  "\<exists>es. trace (state_of (checkAnimationShouldBeFinished env a qn dq s)) =
           trace s @ ValidateTweens a # es \<and> (\<forall>e \<in> set es. about a e)"
proof -
  let ?s1 = "collab (ValidateTweens a) (validateTweens env a) s"
  obtain es where "trace (state_of (forceComplete env a ?s1)) = trace ?s1 @ es" "\<forall>e \<in> set es. about a e"
    using forceComplete_trace by blast
  then show ?thesis
    by (auto simp: checkAnimationShouldBeFinished_def Let_def)
qed

lemma check_unmatched:
  assumes "effectiveQueue (validateTweens env a (heap s)) a dq \<noteq> Some q"
  shows "checkAnimationShouldBeFinished env a (Some q) dq s =
         Normal \<lparr>heap = validateTweens env a (heap s), trace = trace s @ [ValidateTweens a]\<rparr>"
  using assms by (auto simp: checkAnimationShouldBeFinished_def Let_def collab_def)

subsection \<open>The example collaborators\<close>

lemma exEnv_simps [simp]:
  "validateTweens exEnv = exValidateTweens"
  "beginCall exEnv = (\<lambda>a h. h)"
  "setPropertyValue exEnv = (\<lambda>el p v f h. h)"
  "completeCall exEnv = exCompleteCall"
  "STARTED exEnv = 4"
  "numberToString exEnv = intToString"
  "thenResolver exEnv = (\<lambda>h. h)"
  "resolver exEnv = (\<lambda>els h. h)"
  by (simp_all add: exEnv_def)

lemma intToString_100: "intToString 100 = ''100''"
  by (simp add: intToString_def natToString.simps)

lemmas ex_defs =
  exHeap_def exCall_def exOptions_def exStart_def exValidateTweens_def resolveTween_def
  exCompleteCall_def exElements_def exGlobalThis_def exBoundThis_def exEmptyThis_def
  exUnresolvedHeap_def exNoPatternHeap_def

lemmas check_defs =
  checkAnimationShouldBeFinished_def forceComplete_def beginBlock_def effectiveQueue_def
  finalValue_def at_index_def Let_def

subsection \<open>The empty target set\<close>

text \<open>
  C8: an invocation of \<^verbatim>\<open>finish\<close> whose element set is absent or has length zero returns
  at once: the state is the one it was given (no call, no Options object and neither
  \<^verbatim>\<open>State.first\<close> nor \<^verbatim>\<open>State.firstNew\<close> is changed) and the trace has no new event, so
  that no collaborator, callback or promise resolver was invoked.
\<close>

theorem finish_empty_target_set:
  assumes "elements this = None \<or> (\<exists>els. elements this = Some els \<and> items els = [])"
  shows "finish env this maybeQueueName finishAll s = Some (Normal s)"
  using assms by (auto simp: finish_def)

theorem finish_empty_target_set_witness:
  "finish exEnv exEmptyThis (MQString ''y'') True exStart = Some (Normal exStart) \<and>
   finish exEnv \<lparr>elements = None, promiseHandler = Some \<lparr>has_resolver = True\<rparr>\<rparr> MQUndefined False exStart
     = Some (Normal exStart)"
proof -
  have "elements exEmptyThis = None \<or> (\<exists>els. elements exEmptyThis = Some els \<and> items els = [])"
    by (simp add: exEmptyThis_def)
  then have a: "finish exEnv exEmptyThis (MQString ''y'') True exStart = Some (Normal exStart)"
    by (rule finish_empty_target_set)
  have b: "finish exEnv \<lparr>elements = None, promiseHandler = Some \<lparr>has_resolver = True\<rparr>\<rparr> MQUndefined False exStart
     = Some (Normal exStart)"
    by (rule finish_empty_target_set) simp
  from a b show ?thesis by simp
qed

subsection \<open>Force-completion: shape of the trace\<close>

lemma completed_append [simp]: "completed a (xs @ ys) = completed a xs + completed a ys"
  by (simp add: completed_def)

lemma completed_Cons [simp]:
  "completed a (e # es) = (if e = CompleteCall a then 1 else 0) + completed a es"
  by (simp add: completed_def)

lemma completed_Nil [simp]: "completed a [] = 0"
  by (simp add: completed_def)

lemma completed_none:
  "\<forall>e \<in> set es. e \<noteq> CompleteCall a \<Longrightarrow> completed a es = 0"
  by (induction es) auto

lemma beginBlock_started:
  "flags (calls (heap s) a) AND STARTED env \<noteq> 0 \<Longrightarrow> beginBlock env a s = Normal s"
  by (simp add: beginBlock_def)

lemma forceComplete_Normal_trace:
  assumes "forceComplete env a s = Normal s'"
  shows "\<exists>s2 es1 es2. beginBlock env a s = Normal s2 \<and> trace s2 = trace s @ es1 \<and>
           (\<forall>e \<in> set es1. \<exists>ob. e = BeginCall a ob) \<and>
           trace s' = trace s2 @ es2 @ [CompleteCall a] \<and>
           (\<forall>e \<in> set es2. isSetPropertyValue e) \<and>
           length es2 = length (tweens (calls (heap s2) a))"
proof -
  from assms obtain s2 where b: "beginBlock env a s = Normal s2"
    by (auto simp: forceComplete_def split: result.splits)
  let ?ps = "map fst (tweens (calls (heap s2) a))"
  from assms b obtain s3 where f: "finalizeTweens env a ?ps s2 = Normal s3"
    and s': "s' = collab (CompleteCall a) (completeCall env a) s3"
    by (auto simp: forceComplete_def split: result.splits)
  obtain es1 where es1: "trace (state_of (beginBlock env a s)) = trace s @ es1"
      "\<forall>e \<in> set es1. \<exists>ob. e = BeginCall a ob"
    using beginBlock_trace by blast
  obtain es2 where es2: "trace (state_of (finalizeTweens env a ?ps s2)) = trace s2 @ es2"
      "\<forall>e \<in> set es2. isSetPropertyValue e"
      "is_Normal (finalizeTweens env a ?ps s2) \<longrightarrow> length es2 = length ?ps"
    using finalizeTweens_trace by blast
  have "trace s2 = trace s @ es1" using es1(1) b by simp
  moreover have "trace s' = trace s2 @ es2 @ [CompleteCall a]" using es2(1) f s' by simp
  moreover have "length es2 = length (tweens (calls (heap s2) a))" using es2(3) f by simp
  ultimately show ?thesis using b es1(2) es2(2) by blast
qed

lemma forceComplete_Normal_completed:
  assumes "forceComplete env a s = Normal s'"
  shows "completed a (trace s') = completed a (trace s) + 1"
proof -
  from forceComplete_Normal_trace [OF assms] obtain s2 es1 es2 where
    t: "beginBlock env a s = Normal s2" "trace s2 = trace s @ es1"
       "\<forall>e \<in> set es1. \<exists>ob. e = BeginCall a ob"
       "trace s' = trace s2 @ es2 @ [CompleteCall a]" "\<forall>e \<in> set es2. isSetPropertyValue e"
    by blast
  have "completed a es1 = 0" using t(3) by (intro completed_none) auto
  moreover have "completed a es2 = 0" using t(5) by (intro completed_none) auto
  ultimately show ?thesis using t(2,4) by simp
qed

lemma check_eligible:
  "qn = None \<or> qn = effectiveQueue (validateTweens env a (heap s)) a dq \<Longrightarrow>
   checkAnimationShouldBeFinished env a qn dq s
     = forceComplete env a (collab (ValidateTweens a) (validateTweens env a) s)"
  by (auto simp: checkAnimationShouldBeFinished_def Let_def)

subsection \<open>The final value\<close>

lemma walkPattern_literals:
  "walkPattern env pat endValues i currentValue
     = currentValue @ concat (map (literalAt env pat endValues) [i..<length pat])"
proof (induction env pat endValues i currentValue rule: walkPattern.induct)
  case (1 env pat endValues i currentValue)
  show ?case
  proof (cases "i < length pat")
    case True
    have lit: "(case at_index endValues i of None \<Rightarrow> toString env (pat ! i) | Some v \<Rightarrow> toString env v)
               = literalAt env pat endValues i"
      by (simp add: literalAt_def split: option.splits)
    have "walkPattern env pat endValues i currentValue
          = walkPattern env pat endValues (i + 1) (currentValue @ literalAt env pat endValues i)"
      using True by (subst walkPattern.simps) (simp only: lit if_True)
    also have "\<dots> = (currentValue @ literalAt env pat endValues i)
                    @ concat (map (literalAt env pat endValues) [i + 1..<length pat])"
      using "1.IH" [OF True] by (simp only: lit)
    also have "\<dots> = currentValue @ concat (map (literalAt env pat endValues) [i..<length pat])"
      using True by (simp add: upt_conv_Cons)
    finally show ?thesis .
  next
    case False
    then show ?thesis by (subst walkPattern.simps) simp
  qed
qed

lemma finalValue_pattern:
  assumes "finalValue env tw = Inr v" "sequence tw = Some sq" "pattern sq = Some pat"
  shows "v = reconstructed env pat (finalKeyframe sq)"
proof (cases "steps sq = []")
  case True
  with assms have "pat = []" "v = ''''"
    by (auto simp: finalValue_def split: if_splits)
  then show ?thesis by (simp add: reconstructed_def)
next
  case False
  with assms have "v = walkPattern env pat (last (steps sq)) 0 ''''"
    by (simp add: finalValue_def)
  then show ?thesis using False
    by (simp add: walkPattern_literals reconstructed_def finalKeyframe_def)
qed

lemma finalValue_no_pattern:
  "sequence tw = Some sq \<Longrightarrow> pattern sq = None \<Longrightarrow> finalValue env tw = Inr ''''"
  by (simp add: finalValue_def)

lemma preservesD: "preserves obs f \<Longrightarrow> obs (f h) = obs h"
  by (simp add: preserves_def)

lemma stable_opts: "stable obs \<Longrightarrow> obs (h\<lparr>opts := (opts h)(ob := r)\<rparr>) = obs h"
  by (simp add: stable_def)

lemma stable_flags:
  "stable obs \<Longrightarrow> obs (h\<lparr>calls := (calls h)(a := (calls h a)\<lparr>flags := w\<rparr>)\<rparr>) = obs h"
  by (simp add: stable_def)

lemma stable_call_fields: "stable (\<lambda>h. (tweens (calls h a), element (calls h a)))"
  by (simp add: stable_def)

lemma beginBlock_keeps:
  assumes "preserves obs (beginCall env a)" "stable obs"
  shows "obs (heap (state_of (beginBlock env a s))) = obs (heap s)"
  using assms
  by (auto simp: beginBlock_def Let_def stable_opts stable_flags preservesD split: option.splits)

lemma finalizeTweens_keeps:
  assumes "\<forall>el p v f. preserves obs (setPropertyValue env el p v f)"
  shows "obs (heap (state_of (finalizeTweens env a ps s))) = obs (heap s)"
proof (induction ps arbitrary: s)
  case Nil
  then show ?case by simp
next
  case (Cons p ps)
  show ?case
  proof (cases "map_of (tweens (calls (heap s) a)) p")
    case None
    then show ?thesis by simp
  next
    case (Some tween)
    show ?thesis
    proof (cases "finalValue env tween")
      case (Inl e)
      with Some show ?thesis by simp
    next
      case (Inr v)
      with Some Cons.IH assms show ?thesis by (simp add: preservesD)
    qed
  qed
qed

lemma finalizeTweens_commits:
  assumes frame: "\<forall>el p v f. preserves (\<lambda>h. (tweens (calls h a), element (calls h a)))
                                 (setPropertyValue env el p v f)"
    and "finalizeTweens env a ps s = Normal s'"
  shows "(\<forall>p \<in> set ps. \<exists>tw v. map_of (tweens (calls (heap s) a)) p = Some tw \<and>
             finalValue env tw = Inr v \<and>
             SetPropertyValue (element (calls (heap s) a)) p v (fn tw) \<in> set (trace s')) \<and>
         (\<forall>el p v f. SetPropertyValue el p v f \<in> set (trace s') \<longrightarrow>
             SetPropertyValue el p v f \<in> set (trace s) \<or>
             (el = element (calls (heap s) a) \<and>
              (\<exists>tw. map_of (tweens (calls (heap s) a)) p = Some tw \<and>
                    finalValue env tw = Inr v \<and> f = fn tw)))"
  using assms(2)
proof (induction ps arbitrary: s)
  case Nil
  then show ?case by simp
next
  case (Cons p ps)
  from Cons.prems obtain tween where tw: "map_of (tweens (calls (heap s) a)) p = Some tween"
    by (cases "map_of (tweens (calls (heap s) a)) p") auto
  from Cons.prems tw obtain v where v: "finalValue env tween = Inr v"
    by (cases "finalValue env tween") auto
  let ?ev = "SetPropertyValue (element (calls (heap s) a)) p v (fn tween)"
  let ?s1 = "collab ?ev (setPropertyValue env (element (calls (heap s) a)) p v (fn tween)) s"
  have step: "finalizeTweens env a ps ?s1 = Normal s'"
    using Cons.prems tw v by simp
  have same: "tweens (calls (heap ?s1) a) = tweens (calls (heap s) a)"
             "element (calls (heap ?s1) a) = element (calls (heap s) a)"
    using frame by (auto simp: preserves_def)
  note IH = Cons.IH [OF step, unfolded same]
  obtain es where es: "trace s' = trace ?s1 @ es"
    using finalizeTweens_trace [of env a ps ?s1] step by auto
  then have here: "?ev \<in> set (trace s')" by simp
  show ?case
  proof (intro conjI ballI allI impI)
    fix p' assume "p' \<in> set (p # ps)"
    then show "\<exists>tw v. map_of (tweens (calls (heap s) a)) p' = Some tw \<and>
             finalValue env tw = Inr v \<and>
             SetPropertyValue (element (calls (heap s) a)) p' v (fn tw) \<in> set (trace s')"
      using IH tw v here by auto
  next
    fix el p' v' f assume "SetPropertyValue el p' v' f \<in> set (trace s')"
    with IH have "SetPropertyValue el p' v' f \<in> set (trace ?s1) \<or>
             (el = element (calls (heap s) a) \<and>
              (\<exists>tw. map_of (tweens (calls (heap s) a)) p' = Some tw \<and>
                    finalValue env tw = Inr v' \<and> f = fn tw))"
      by blast
    then show "SetPropertyValue el p' v' f \<in> set (trace s) \<or>
             (el = element (calls (heap s) a) \<and>
              (\<exists>tw. map_of (tweens (calls (heap s) a)) p' = Some tw \<and>
                    finalValue env tw = Inr v' \<and> f = fn tw))"
      using tw v by auto
  qed
qed

text \<open>
  The values committed by a force-completion that returns: every property of the call
  is committed with the final value of its tween, and nothing else is committed.
\<close>

lemma check_commits:
  assumes bframe: "preserves (\<lambda>h. (tweens (calls h a), element (calls h a))) (beginCall env a)"
    and sframe: "\<forall>el p v f. preserves (\<lambda>h. (tweens (calls h a), element (calls h a)))
                                 (setPropertyValue env el p v f)"
    and elig: "qn = None \<or> qn = effectiveQueue (validateTweens env a h) a dq"
    and norm: "checkAnimationShouldBeFinished env a qn dq \<lparr>heap = h, trace = []\<rparr> = Normal s'"
  shows "(\<forall>p tw. map_of (tweens (calls (validateTweens env a h) a)) p = Some tw \<longrightarrow>
            (\<exists>v. finalValue env tw = Inr v \<and>
                 SetPropertyValue (element (calls (validateTweens env a h) a)) p v (fn tw)
                   \<in> set (trace s'))) \<and>
         (\<forall>el p v f. SetPropertyValue el p v f \<in> set (trace s') \<longrightarrow>
            el = element (calls (validateTweens env a h) a) \<and>
            (\<exists>tw. map_of (tweens (calls (validateTweens env a h) a)) p = Some tw \<and>
                  finalValue env tw = Inr v \<and> f = fn tw))"
proof -
  let ?s1 = "collab (ValidateTweens a) (validateTweens env a) \<lparr>heap = h, trace = []\<rparr>"
  let ?T = "tweens (calls (validateTweens env a h) a)"
  let ?E = "element (calls (validateTweens env a h) a)"
  have fc: "forceComplete env a ?s1 = Normal s'"
    using check_eligible [of qn env a "\<lparr>heap = h, trace = []\<rparr>" dq] elig norm by simp
  then obtain s2 where b: "beginBlock env a ?s1 = Normal s2"
    by (auto simp: forceComplete_def split: result.splits)
  let ?ps = "map fst (tweens (calls (heap s2) a))"
  from fc b obtain s3 where f: "finalizeTweens env a ?ps s2 = Normal s3"
    and s': "s' = collab (CompleteCall a) (completeCall env a) s3"
    by (auto simp: forceComplete_def split: result.splits)
  have "(tweens (calls (heap s2) a), element (calls (heap s2) a))
        = (tweens (calls (heap ?s1) a), element (calls (heap ?s1) a))"
    using beginBlock_keeps [OF bframe stable_call_fields, of ?s1] b by simp
  then have T2: "tweens (calls (heap s2) a) = ?T" and E2: "element (calls (heap s2) a) = ?E"
    by simp_all
  obtain es1 where "trace (state_of (beginBlock env a ?s1)) = trace ?s1 @ es1"
      "\<forall>e \<in> set es1. \<exists>ob. e = BeginCall a ob"
    using beginBlock_trace by blast
  then have tr2: "\<forall>el p v f. SetPropertyValue el p v f \<notin> set (trace s2)"
    using b by auto
  note C = finalizeTweens_commits [OF sframe f, unfolded T2 E2]
  note C1 = C [THEN conjunct1, rule_format]
  note C2 = C [THEN conjunct2, rule_format]
  have tr': "set (trace s') = insert (CompleteCall a) (set (trace s3))" using s' by simp
  have A: "\<forall>p tw. map_of ?T p = Some tw \<longrightarrow>
            (\<exists>v. finalValue env tw = Inr v \<and> SetPropertyValue ?E p v (fn tw) \<in> set (trace s'))"
  proof (intro allI impI)
    fix p tw assume m: "map_of ?T p = Some tw"
    then have "(p, tw) \<in> set ?T" by (rule map_of_SomeD)
    then have "fst (p, tw) \<in> fst ` set ?T" by (rule imageI)
    then have "p \<in> set (map fst ?T)" by simp
    from C1 [OF this] obtain tw' v where
      c: "map_of ?T p = Some tw'" "finalValue env tw' = Inr v"
         "SetPropertyValue ?E p v (fn tw') \<in> set (trace s3)"
      by blast
    from c(1) m have "tw' = tw" by simp
    with c(2,3) tr' show "\<exists>v. finalValue env tw = Inr v \<and> SetPropertyValue ?E p v (fn tw) \<in> set (trace s')"
      by auto
  qed
  have B: "\<forall>el p v f. SetPropertyValue el p v f \<in> set (trace s') \<longrightarrow>
            el = ?E \<and> (\<exists>tw. map_of ?T p = Some tw \<and> finalValue env tw = Inr v \<and> f = fn tw)"
  proof (intro allI impI)
    fix el p v f assume "SetPropertyValue el p v f \<in> set (trace s')"
    then have "SetPropertyValue el p v f \<in> set (trace s3)" using tr' by simp
    from C2 [OF this] tr2
    show "el = ?E \<and> (\<exists>tw. map_of ?T p = Some tw \<and> finalValue env tw = Inr v \<and> f = fn tw)"
      by blast
  qed
  from A B show ?thesis by (rule conjI)
qed


subsection \<open>Claims on the check of one call\<close>

text \<open>
  C1: when the check force-completes a call (the queue filter admits it and no exception
  is thrown), every property of its tween mapping whose sequence has a pattern is
  committed through \<^verbatim>\<open>setPropertyValue\<close> with the string built by walking the pattern
  index by index, taking the final keyframe's value where it is non-null and the
  pattern's literal otherwise; no other value is committed for that property. The
  tween mapping and the element are the ones that \<^verbatim>\<open>validateTweens\<close> leaves, and
  \<^verbatim>\<open>beginCall\<close> and \<^verbatim>\<open>setPropertyValue\<close> are taken not to replace them. The time elapsed
  is not read.
\<close>

theorem finalization_value:
  assumes "preserves (\<lambda>h. (tweens (calls h a), element (calls h a))) (beginCall env a)"
    and "\<forall>el p v f. preserves (\<lambda>h. (tweens (calls h a), element (calls h a)))
                        (setPropertyValue env el p v f)"
    and "qn = None \<or> qn = effectiveQueue (validateTweens env a h) a dq"
    and "checkAnimationShouldBeFinished env a qn dq \<lparr>heap = h, trace = []\<rparr> = Normal s'"
    and "map_of (tweens (calls (validateTweens env a h) a)) p = Some tw"
    and "sequence tw = Some sq" and "pattern sq = Some pat"
  shows "SetPropertyValue (element (calls (validateTweens env a h) a)) p
           (reconstructed env pat (finalKeyframe sq)) (fn tw) \<in> set (trace s') \<and>
         (\<forall>el v f. SetPropertyValue el p v f \<in> set (trace s') \<longrightarrow>
            v = reconstructed env pat (finalKeyframe sq))"
proof -
  note C = check_commits [OF assms(1-4)]
  from C assms(5) obtain v where
    v: "finalValue env tw = Inr v"
       "SetPropertyValue (element (calls (validateTweens env a h) a)) p v (fn tw) \<in> set (trace s')"
    by blast
  have "v = reconstructed env pat (finalKeyframe sq)"
    using v(1) assms(6,7) by (rule finalValue_pattern)
  with v(2) have here: "SetPropertyValue (element (calls (validateTweens env a h) a)) p
           (reconstructed env pat (finalKeyframe sq)) (fn tw) \<in> set (trace s')"
    by simp
  have only: "\<forall>el v f. SetPropertyValue el p v f \<in> set (trace s') \<longrightarrow>
            v = reconstructed env pat (finalKeyframe sq)"
  proof (intro allI impI)
    fix el v' f assume "SetPropertyValue el p v' f \<in> set (trace s')"
    with C obtain tw' where "map_of (tweens (calls (validateTweens env a h) a)) p = Some tw'"
      "finalValue env tw' = Inr v'"
      by blast
    with assms(5) have "finalValue env tw = Inr v'" by simp
    then show "v' = reconstructed env pat (finalKeyframe sq)"
      using assms(6,7) by (rule finalValue_pattern)
  qed
  from here only show ?thesis by (rule conjI)
qed

theorem finalization_value_witness:
  "\<forall>t. SetPropertyValue (Some 7) ''x'' ''100px'' 0
         \<in> set (trace (state_of (checkAnimationShouldBeFinished exEnv 0 None (Some (QName ''''))
                                   \<lparr>heap = exHeap t, trace = []\<rparr>)))"
proof
  fix t
  let ?r = "checkAnimationShouldBeFinished exEnv 0 None (Some (QName '''')) \<lparr>heap = exHeap t, trace = []\<rparr>"
  let ?sq = "\<lparr>pattern = Some [JStr '''', JStr ''px''], steps = [[Some (JNum (100::int))]]\<rparr>"
  let ?tw = "\<lparr>sequence = Some ?sq, fn = 0\<rparr>"
  have "is_Normal ?r"
    by (simp add: check_defs ex_defs collab_def upd_opts_def upd_call_def walkPattern.simps)
  then obtain s' where r: "?r = Normal s'" by (cases ?r) auto
  have b: "preserves (\<lambda>h. (tweens (calls h 0), element (calls h 0))) (beginCall exEnv 0)"
    by (simp add: preserves_def)
  have s: "\<forall>el p v f. preserves (\<lambda>h. (tweens (calls h 0), element (calls h 0)))
                        (setPropertyValue exEnv el p v f)"
    by (simp add: preserves_def)
  have m: "map_of (tweens (calls (validateTweens exEnv 0 (exHeap t)) 0)) ''x'' = Some ?tw"
    by (simp add: ex_defs)
  have e: "element (calls (validateTweens exEnv 0 (exHeap t)) 0) = Some 7"
    by (simp add: ex_defs)
  have v: "reconstructed exEnv [JStr '''', JStr ''px''] (finalKeyframe ?sq) = ''100px''"
    by (simp add: reconstructed_def literalAt_def at_index_def finalKeyframe_def intToString_100)
  have "SetPropertyValue (element (calls (validateTweens exEnv 0 (exHeap t)) 0)) ''x''
           (reconstructed exEnv [JStr '''', JStr ''px''] (finalKeyframe ?sq)) (fn ?tw) \<in> set (trace s')"
    using finalization_value [OF b s _ r m, of ?sq "[JStr '''', JStr ''px'']"] by simp
  then show "SetPropertyValue (Some 7) ''x'' ''100px'' 0 \<in> set (trace (state_of ?r))"
    using r e v by simp
qed

text \<open>
  C9: when the check force-completes a call, a property whose tween sequence has no
  pattern is still committed through \<^verbatim>\<open>setPropertyValue\<close>, with the empty string, and
  with no other value.
\<close>

theorem no_pattern_commits_empty_string:
  assumes "preserves (\<lambda>h. (tweens (calls h a), element (calls h a))) (beginCall env a)"
    and "\<forall>el p v f. preserves (\<lambda>h. (tweens (calls h a), element (calls h a)))
                        (setPropertyValue env el p v f)"
    and "qn = None \<or> qn = effectiveQueue (validateTweens env a h) a dq"
    and "checkAnimationShouldBeFinished env a qn dq \<lparr>heap = h, trace = []\<rparr> = Normal s'"
    and "map_of (tweens (calls (validateTweens env a h) a)) p = Some tw"
    and "sequence tw = Some sq" and "pattern sq = None"
  shows "SetPropertyValue (element (calls (validateTweens env a h) a)) p '''' (fn tw)
           \<in> set (trace s') \<and>
         (\<forall>el v f. SetPropertyValue el p v f \<in> set (trace s') \<longrightarrow> v = '''')"
proof -
  note C = check_commits [OF assms(1-4)]
  have fv: "finalValue env tw = Inr ''''"
    using assms(6,7) by (rule finalValue_no_pattern)
  from C assms(5) obtain v where
    v: "finalValue env tw = Inr v"
       "SetPropertyValue (element (calls (validateTweens env a h) a)) p v (fn tw) \<in> set (trace s')"
    by blast
  with fv have here: "SetPropertyValue (element (calls (validateTweens env a h) a)) p '''' (fn tw)
           \<in> set (trace s')"
    by simp
  have only: "\<forall>el v f. SetPropertyValue el p v f \<in> set (trace s') \<longrightarrow> v = ''''"
  proof (intro allI impI)
    fix el v' f assume "SetPropertyValue el p v' f \<in> set (trace s')"
    with C obtain tw' where "map_of (tweens (calls (validateTweens env a h) a)) p = Some tw'"
      "finalValue env tw' = Inr v'"
      by blast
    with assms(5) fv show "v' = ''''" by simp
  qed
  from here only show ?thesis by (rule conjI)
qed

theorem no_pattern_commits_empty_string_witness:
  "SetPropertyValue (Some 7) ''display'' '''' 2
     \<in> set (trace (state_of (checkAnimationShouldBeFinished exEnv 0 None (Some (QName ''''))
                               \<lparr>heap = exNoPatternHeap, trace = []\<rparr>)))"
proof -
  let ?r = "checkAnimationShouldBeFinished exEnv 0 None (Some (QName '''')) \<lparr>heap = exNoPatternHeap, trace = []\<rparr>"
  let ?sq = "\<lparr>pattern = None, steps = [[Some (JStr ''none'')]]\<rparr> :: int Sequence"
  let ?tw = "\<lparr>sequence = Some ?sq, fn = 2\<rparr>"
  have "is_Normal ?r"
    by (simp add: check_defs ex_defs collab_def upd_opts_def upd_call_def)
  then obtain s' where r: "?r = Normal s'" by (cases ?r) auto
  have b: "preserves (\<lambda>h. (tweens (calls h 0), element (calls h 0))) (beginCall exEnv 0)"
    by (simp add: preserves_def)
  have s: "\<forall>el p v f. preserves (\<lambda>h. (tweens (calls h 0), element (calls h 0)))
                        (setPropertyValue exEnv el p v f)"
    by (simp add: preserves_def)
  have m: "map_of (tweens (calls (validateTweens exEnv 0 exNoPatternHeap) 0)) ''display'' = Some ?tw"
    by (simp add: ex_defs)
  have e: "element (calls (validateTweens exEnv 0 exNoPatternHeap) 0) = Some 7"
    by (simp add: ex_defs)
  have "SetPropertyValue (element (calls (validateTweens exEnv 0 exNoPatternHeap) 0)) ''display''
           '''' (fn ?tw) \<in> set (trace s')"
    using no_pattern_commits_empty_string [OF b s _ r m, of ?sq] by simp
  then show ?thesis using r e by simp
qed

text \<open>
  C6, as stated, fails: \<^verbatim>\<open>validateTweens\<close> runs before the queue test, so a call that the
  filter does not admit has its tweens resolved all the same. Here the filter is \<open>x\<close>, the
  effective queue is \<open>y\<close>, and the unresolved tween of the call is resolved.
\<close>

theorem unmatched_call_untouched_counterexample:
  "effectiveQueue (validateTweens exEnv 0 exUnresolvedHeap) 0 (Some (QName '''')) = Some (QName ''y'') \<and>
   tweens (calls exUnresolvedHeap 0) = [(''opacity'', \<lparr>sequence = None, fn = 1\<rparr>)] \<and>
   tweens (calls (heap (state_of
      (checkAnimationShouldBeFinished exEnv 0 (Some (QName ''x'')) (Some (QName ''''))
         \<lparr>heap = exUnresolvedHeap, trace = []\<rparr>))) 0)
     = [(''opacity'', \<lparr>sequence = Some \<lparr>pattern = None, steps = []\<rparr>, fn = 1\<rparr>)]"
  by (simp add: check_defs ex_defs collab_def)

text \<open>
  C6, amended: when a queue-name filter is specified and the effective queue of a call
  does not match it, the check does nothing but validate the tweens of the call: the
  state is the one \<^verbatim>\<open>validateTweens\<close> returns and the only event is that validation, so
  that no begin callback runs, no value is committed and \<^verbatim>\<open>completeCall\<close> is not invoked.
  Whatever \<^verbatim>\<open>validateTweens\<close> leaves as it is (flags, Options counters, tweens) is
  left as it is.
\<close>

theorem unmatched_call_only_validated:
  assumes "effectiveQueue (validateTweens env a (heap s)) a dq \<noteq> Some q"
  shows "checkAnimationShouldBeFinished env a (Some q) dq s
           = Normal \<lparr>heap = validateTweens env a (heap s), trace = trace s @ [ValidateTweens a]\<rparr> \<and>
         (preserves obs (validateTweens env a) \<longrightarrow>
            obs (heap (state_of (checkAnimationShouldBeFinished env a (Some q) dq s))) = obs (heap s))"
  using check_unmatched [OF assms] by (simp add: preserves_def)

theorem unmatched_call_only_validated_witness:
  "checkAnimationShouldBeFinished exEnv 0 (Some (QName ''x'')) (Some (QName ''''))
       \<lparr>heap = exUnresolvedHeap, trace = []\<rparr>
     = Normal \<lparr>heap = exValidateTweens 0 exUnresolvedHeap, trace = [ValidateTweens 0]\<rparr> \<and>
   (flags (calls (heap (state_of (checkAnimationShouldBeFinished exEnv 0 (Some (QName ''x''))
       (Some (QName '''')) \<lparr>heap = exUnresolvedHeap, trace = []\<rparr>))) 0),
    opts (heap (state_of (checkAnimationShouldBeFinished exEnv 0 (Some (QName ''x''))
       (Some (QName '''')) \<lparr>heap = exUnresolvedHeap, trace = []\<rparr>))))
     = (flags (calls exUnresolvedHeap 0), opts exUnresolvedHeap)"
proof -
  have e: "effectiveQueue (validateTweens exEnv 0 (heap \<lparr>heap = exUnresolvedHeap, trace = []\<rparr>)) 0
             (Some (QName '''')) \<noteq> Some (QName ''x'')"
    by (simp add: effectiveQueue_def ex_defs Let_def)
  have p: "preserves (\<lambda>h. (flags (calls h 0), opts h)) (validateTweens exEnv 0)"
    by (simp add: preserves_def exValidateTweens_def Let_def)
  note T = unmatched_call_only_validated [OF e, of "\<lambda>h. (flags (calls h 0), opts h)"]
  show ?thesis
    using T [THEN conjunct1] T [THEN conjunct2, THEN mp, OF p] by simp
qed

text \<open>
  C5, as stated, fails: the check has no test for a call that is already finished. Applied
  twice to the call of the example, it commits the final value twice and invokes
  \<^verbatim>\<open>completeCall\<close> twice.
\<close>

theorem second_check_counterexample:
  "trace (state_of (checkAnimationShouldBeFinished exEnv 0 None (Some (QName ''''))
      (state_of (checkAnimationShouldBeFinished exEnv 0 None (Some (QName '''')) exStart))))
   = [ValidateTweens 0, BeginCall 0 0, SetPropertyValue (Some 7) ''x'' ''100px'' 0, CompleteCall 0,
      ValidateTweens 0, SetPropertyValue (Some 7) ''x'' ''100px'' 0, CompleteCall 0]"
  by (simp add: check_defs ex_defs collab_def upd_opts_def upd_call_def walkPattern.simps
      intToString_100)

text \<open>
  C5, amended: a second application of the check to a call that the first one
  force-completed is not a no-op. When the queue filter admits the call again and no
  exception is thrown, the STARTED marker makes the second application skip the
  begin-time work only (the begin block returns the state as it is, and no
  \<^verbatim>\<open>beginCall\<close> is made); it commits one value for each property of the call again and
  invokes \<^verbatim>\<open>completeCall\<close> again, so that \<^verbatim>\<open>completeCall\<close> is invoked twice in total.
\<close>

theorem second_check_completes_again:
  assumes "qn = None \<or> qn = effectiveQueue (validateTweens env a (heap s)) a dq"
    and "checkAnimationShouldBeFinished env a qn dq s = Normal s1"
    and "qn = None \<or> qn = effectiveQueue (validateTweens env a (heap s1)) a dq"
    and "flags (calls (validateTweens env a (heap s1)) a) AND STARTED env \<noteq> 0"
    and "checkAnimationShouldBeFinished env a qn dq s1 = Normal s2"
  shows "completed a (trace s2) = completed a (trace s) + 2 \<and>
         beginBlock env a (collab (ValidateTweens a) (validateTweens env a) s1)
           = Normal (collab (ValidateTweens a) (validateTweens env a) s1) \<and>
         (\<exists>es. trace s2 = trace s1 @ ValidateTweens a # es @ [CompleteCall a] \<and>
               (\<forall>e \<in> set es. isSetPropertyValue e) \<and>
               length es = length (tweens (calls (validateTweens env a (heap s1)) a)))"
proof -
  let ?c = "collab (ValidateTweens a) (validateTweens env a) s"
  let ?c1 = "collab (ValidateTweens a) (validateTweens env a) s1"
  have f1: "forceComplete env a ?c = Normal s1"
    using check_eligible [OF assms(1)] assms(2) by simp
  have f2: "forceComplete env a ?c1 = Normal s2"
    using check_eligible [OF assms(3)] assms(5) by simp
  have n1: "completed a (trace s1) = completed a (trace s) + 1"
    using forceComplete_Normal_completed [OF f1] by simp
  have n2: "completed a (trace s2) = completed a (trace s1) + 1"
    using forceComplete_Normal_completed [OF f2] by simp
  have bb: "beginBlock env a ?c1 = Normal ?c1"
    using assms(4) by (intro beginBlock_started) simp
  from forceComplete_Normal_trace [OF f2] obtain s2' es1 es2 where
    t: "beginBlock env a ?c1 = Normal s2'" "trace s2 = trace s2' @ es2 @ [CompleteCall a]"
       "\<forall>e \<in> set es2. isSetPropertyValue e" "length es2 = length (tweens (calls (heap s2') a))"
    by blast
  from t(1) bb have eq: "s2' = ?c1" by simp
  have "trace s2 = trace s1 @ ValidateTweens a # es2 @ [CompleteCall a]"
    using t(2) eq by simp
  moreover have "length es2 = length (tweens (calls (validateTweens env a (heap s1)) a))"
    using t(4) eq by simp
  ultimately have "\<exists>es. trace s2 = trace s1 @ ValidateTweens a # es @ [CompleteCall a] \<and>
               (\<forall>e \<in> set es. isSetPropertyValue e) \<and>
               length es = length (tweens (calls (validateTweens env a (heap s1)) a))"
    using t(3) by blast
  with n1 n2 bb show ?thesis by simp
qed

theorem second_check_completes_again_witness:
  "completed 0 (trace (state_of (checkAnimationShouldBeFinished exEnv 0 None (Some (QName ''''))
      (state_of (checkAnimationShouldBeFinished exEnv 0 None (Some (QName '''')) exStart))))) = 2"
proof -
  let ?r1 = "checkAnimationShouldBeFinished exEnv 0 None (Some (QName '''')) exStart"
  have "is_Normal ?r1"
    by (simp add: check_defs ex_defs collab_def upd_opts_def upd_call_def walkPattern.simps)
  then obtain s1 where r1: "?r1 = Normal s1" by (cases ?r1) auto
  let ?r2 = "checkAnimationShouldBeFinished exEnv 0 None (Some (QName '''')) s1"
  have s1: "s1 = state_of ?r1" using r1 by simp
  have "is_Normal ?r2"
    unfolding s1
    by (simp add: check_defs ex_defs collab_def upd_opts_def upd_call_def walkPattern.simps)
  then obtain s2 where r2: "?r2 = Normal s2" by (cases ?r2) auto
  have st: "flags (calls (validateTweens exEnv 0 (heap s1)) 0) AND STARTED exEnv \<noteq> 0"
    unfolding s1
    by (simp add: check_defs ex_defs collab_def upd_opts_def upd_call_def walkPattern.simps)
  have "completed 0 (trace s2) = completed 0 (trace exStart) + 2"
    using second_check_completes_again [OF _ r1 _ st r2] by simp
  then show ?thesis using r1 r2 by (simp add: exStart_def)
qed


subsection \<open>Invariants of each loop\<close>

lemma finishAnimations_invariant:
  assumes chk: "\<And>b s. Q s \<Longrightarrow> b \<in> set cs \<Longrightarrow>
                  Q (state_of (checkAnimationShouldBeFinished env b qn dq s))"
    and "Q s"
  shows "Q (state_of (finishAnimations env qn dq cs s))"
  using assms
proof (induction cs arbitrary: s)
  case Nil
  then show ?case by simp
next
  case (Cons c cs)
  have q: "Q (state_of (checkAnimationShouldBeFinished env c qn dq s))"
    using Cons.prems by simp
  show ?case
  proof (cases "checkAnimationShouldBeFinished env c qn dq s")
    case (Throw e s')
    with q show ?thesis by simp
  next
    case (Normal s')
    with q have "Q s'" by simp
    have "Q (state_of (finishAnimations env qn dq cs s'))"
    proof (rule Cons.IH [OF _ \<open>Q s'\<close>])
      fix b t assume "Q t" "b \<in> set cs"
      then show "Q (state_of (checkAnimationShouldBeFinished env b qn dq t))"
        using Cons.prems(1) [of t b] by simp
    qed
    with Normal show ?thesis by simp
  qed
qed

lemma drainFirstNew_invariant:
  assumes "drainFirstNew env s = Some s1"
    and val: "\<And>b s. Q s \<Longrightarrow> Q (collab (ValidateTweens b) (validateTweens env b) s)"
    and "Q s"
  shows "Q s1"
proof -
  let ?P = "\<lambda>env s s1. (\<forall>b s. Q s \<longrightarrow> Q (collab (ValidateTweens b) (validateTweens env b) s))
                           \<longrightarrow> Q s \<longrightarrow> Q s1"
  have "?P env s s1"
    using assms(1)
  proof (rule drainFirstNew.raw_induct [rotated 1, where P = ?P])
    fix d env' t t1
    assume IH: "\<And>e u u1. d e u = Some u1 \<Longrightarrow> ?P e u u1"
      and body: "(case firstNew (heap t) of None \<Rightarrow> Some t
                  | Some a \<Rightarrow> d env' (collab (ValidateTweens a) (validateTweens env' a) t)) = Some t1"
    show "?P env' t t1"
    proof (cases "firstNew (heap t)")
      case None
      with body show ?thesis by simp
    next
      case (Some b)
      with body have "d env' (collab (ValidateTweens b) (validateTweens env' b) t) = Some t1"
        by simp
      from IH [OF this] show ?thesis by blast
    qed
  qed
  with val \<open>Q s\<close> show ?thesis by blast
qed

lemma sweep_invariant:
  assumes "sweep env els qn dq fa ac s = Some r"
    and chk: "\<And>b s. Q s \<Longrightarrow> targeted els (element (calls (heap s) b)) \<Longrightarrow>
                  Q (state_of (checkAnimationShouldBeFinished env b qn dq s))"
    and "Q s"
  shows "Q (state_of r)"
proof -
  let ?P = "\<lambda>env els qn dq (fa::bool) (ac::call_id option) s r.
              (\<forall>b s. Q s \<longrightarrow> targeted els (element (calls (heap s) b)) \<longrightarrow>
                     Q (state_of (checkAnimationShouldBeFinished env b qn dq s)))
              \<longrightarrow> Q s \<longrightarrow> Q (state_of r)"
  have "?P env els qn dq fa ac s r"
    using assms(1)
  proof (rule sweep.raw_induct [rotated 1, where P = ?P])
    fix sw env' els' qn' dq' fa' ac' t r'
    assume IH: "\<And>e l q d f c u v. sw e l q d f c u = Some v \<Longrightarrow> ?P e l q d f c u v"
      and body: "(case ac' of
        None \<Rightarrow> Some (Normal t)
      | Some a \<Rightarrow>
          if fa' \<or> Some a \<noteq> firstNew (heap t) then
            (let nextCall = c_next (calls (heap t) a) in
             (case (if targeted els' (element (calls (heap t) a))
                    then checkAnimationShouldBeFinished env' a qn' dq' t
                    else Normal t) of
                Throw e s' \<Rightarrow> Some (Throw e s')
              | Normal s' \<Rightarrow>
                  sw env' els' qn' dq' fa'
                    (case nextCall of Some n \<Rightarrow> Some n | None \<Rightarrow> firstNew (heap s')) s'))
          else Some (Normal t)) = Some r'"
    show "?P env' els' qn' dq' fa' ac' t r'"
    proof (intro impI)
      assume chk': "\<forall>b s. Q s \<longrightarrow> targeted els' (element (calls (heap s) b)) \<longrightarrow>
                     Q (state_of (checkAnimationShouldBeFinished env' b qn' dq' s))"
        and qt: "Q t"
      show "Q (state_of r')"
      proof (cases ac')
        case None
        with body qt show ?thesis by auto
      next
        case (Some b)
        show ?thesis
        proof (cases "fa' \<or> Some b \<noteq> firstNew (heap t)")
          case False
          with Some body qt show ?thesis by auto
        next
          case True
          define r1 where "r1 = (if targeted els' (element (calls (heap t) b))
                    then checkAnimationShouldBeFinished env' b qn' dq' t
                    else Normal t)"
          have q1: "Q (state_of r1)"
            using chk' qt by (simp add: r1_def)
          show ?thesis
          proof (cases r1)
            case (Throw e s')
            then have "r' = Throw e s'"
              using body Some True by (simp add: r1_def [symmetric] Let_def)
            with q1 Throw show ?thesis by simp
          next
            case (Normal s')
            then have rec: "sw env' els' qn' dq' fa'
               (case c_next (calls (heap t) b) of Some n \<Rightarrow> Some n | None \<Rightarrow> firstNew (heap s')) s'
               = Some r'"
              using body Some True by (simp add: r1_def [symmetric] Let_def)
            have "Q s'" using q1 Normal by simp
            with IH [OF rec] chk' show ?thesis by blast
          qed
        qed
      qed
    qed
  qed
  with chk \<open>Q s\<close> show ?thesis by blast
qed

lemma notify_invariant:
  assumes "\<And>s. Q s \<Longrightarrow> Q (collab ThenResolver (thenResolver env) s)"
    and "\<And>s. Q s \<Longrightarrow> Q (collab Resolver (resolver env els) s)"
    and "Q s"
  shows "Q (notify env this els s)"
proof (cases "promiseHandler this")
  case None
  with assms(3) show ?thesis by (simp add: notify_def)
next
  case (Some ph)
  show ?thesis
  proof (cases "isAnimation els \<and> animations els \<noteq> None \<and> has_then els")
    case True
    with Some assms(1) [OF assms(3)] show ?thesis by (simp add: notify_def)
  next
    case False
    then have "notify env this els s =
               (if has_resolver ph then collab Resolver (resolver env els) s else s)"
      using Some by (auto simp: notify_def)
    with assms(2) [OF assms(3)] assms(3) show ?thesis by simp
  qed
qed

text \<open>The two branches of \<^verbatim>\<open>finish\<close> on a non-empty element set.\<close>

lemma finish_bound:
  assumes "elements this = Some els" "items els \<noteq> []" "isAnimation els" "animations els = Some cs"
  shows "finish env this mq fa s =
         Some (case finishAnimations env (validateQueue mq) (Some (defaults_queue (heap s))) cs s of
                 Throw e s' \<Rightarrow> Throw e s'
               | Normal s' \<Rightarrow> Normal (notify env this els s'))"
  using assms by (simp add: finish_def Let_def split: result.splits)

lemma finish_global:
  assumes "elements this = Some els" "items els \<noteq> []" "\<not> isAnimation els \<or> animations els = None"
    and "finish env this mq fa s = Some r"
  shows "\<exists>s1 r1. drainFirstNew env s = Some s1 \<and>
           sweep env (Some els) (validateQueue mq) (Some (defaults_queue (heap s)))
             (if mq = MQTrue then True else fa) (first (heap s1)) s1 = Some r1 \<and>
           r = (case r1 of Throw e s' \<Rightarrow> Throw e s' | Normal s' \<Rightarrow> Normal (notify env this els s'))"
proof -
  have none: "(if isAnimation els then animations els else None) = None"
    using assms(3) by auto
  define fa' where "fa' = (if mq = MQTrue then True else fa)"
  let ?sw = "\<lambda>s1. sweep env (Some els) (validateQueue mq) (Some (defaults_queue (heap s))) fa'
                (first (heap s1)) s1"
  have fin: "(case (case drainFirstNew env s of None \<Rightarrow> None | Some s1 \<Rightarrow> ?sw s1) of
                None \<Rightarrow> None
              | Some (Throw e s') \<Rightarrow> Some (Throw e s')
              | Some (Normal s') \<Rightarrow> Some (Normal (notify env this els s'))) = Some r"
    using assms(4) unfolding finish_def Let_def assms(1) fa'_def [symmetric]
    by (simp add: assms(2) none)
  then obtain s1 where d: "drainFirstNew env s = Some s1"
    by (cases "drainFirstNew env s") auto
  with fin obtain r1 where sw: "?sw s1 = Some r1"
    by (cases "?sw s1") auto
  have "r = (case r1 of Throw e s' \<Rightarrow> Throw e s' | Normal s' \<Rightarrow> Normal (notify env this els s'))"
    using fin d sw by (cases r1) auto
  with d sw show ?thesis unfolding fa'_def by blast
qed

lemma finish_invariant:
  assumes fin: "finish env this mq fa s = Some r"
    and chk: "\<And>b qn dq s. Q s \<Longrightarrow> Q (state_of (checkAnimationShouldBeFinished env b qn dq s))"
    and val: "\<And>b s. Q s \<Longrightarrow> Q (collab (ValidateTweens b) (validateTweens env b) s)"
    and thn: "\<And>s. Q s \<Longrightarrow> Q (collab ThenResolver (thenResolver env) s)"
    and res: "\<And>els s. Q s \<Longrightarrow> Q (collab Resolver (resolver env els) s)"
    and "Q s"
  shows "Q (state_of r)"
proof (cases "elements this")
  case None
  with fin \<open>Q s\<close> show ?thesis by (auto simp: finish_def)
next
  case (Some els)
  show ?thesis
  proof (cases "items els = []")
    case True
    with Some fin \<open>Q s\<close> show ?thesis by (auto simp: finish_def)
  next
    case False
    have nq: "\<And>s'. Q s' \<Longrightarrow> Q (notify env this els s')"
      by (rule notify_invariant [of Q env els _ this, OF thn res])
    show ?thesis
    proof (cases "isAnimation els \<and> animations els \<noteq> None")
      case True
      then obtain cs where cs: "isAnimation els" "animations els = Some cs" by auto
      let ?r1 = "finishAnimations env (validateQueue mq) (Some (defaults_queue (heap s))) cs s"
      have q1: "Q (state_of ?r1)"
        by (rule finishAnimations_invariant [OF chk \<open>Q s\<close>])
      have rr: "r = (case ?r1 of Throw e s' \<Rightarrow> Throw e s' | Normal s' \<Rightarrow> Normal (notify env this els s'))"
        using finish_bound [OF Some False cs, of env mq fa s] fin by simp
      show ?thesis
      proof (cases ?r1)
        case (Throw e s')
        with rr q1 show ?thesis by simp
      next
        case (Normal s')
        with q1 have "Q s'" by simp
        then have "Q (notify env this els s')" by (rule nq)
        with rr Normal show ?thesis by simp
      qed
    next
      case glob: False
      then have "\<not> isAnimation els \<or> animations els = None" by simp
      from finish_global [OF Some False this fin] obtain s1 r1 where
        d: "drainFirstNew env s = Some s1"
        and sw: "sweep env (Some els) (validateQueue mq) (Some (defaults_queue (heap s)))
             (if mq = MQTrue then True else fa) (first (heap s1)) s1 = Some r1"
        and r: "r = (case r1 of Throw e s' \<Rightarrow> Throw e s' | Normal s' \<Rightarrow> Normal (notify env this els s'))"
        by blast
      have "Q s1" using d val \<open>Q s\<close> by (rule drainFirstNew_invariant)
      have q1: "Q (state_of r1)"
        by (rule sweep_invariant [OF sw chk \<open>Q s1\<close>])
      show ?thesis
      proof (cases r1)
        case (Throw e s')
        with r q1 show ?thesis by simp
      next
        case (Normal s')
        with q1 have "Q s'" by simp
        then have "Q (notify env this els s')" by (rule nq)
        with r Normal show ?thesis by simp
      qed
    qed
  qed
qed


subsection \<open>The begin-time work\<close>

lemma begun_append [simp]: "begun ob (xs @ ys) = begun ob xs + begun ob ys"
  by (simp add: begun_def)

lemma begun_Nil [simp]: "begun ob [] = 0"
  by (simp add: begun_def)

lemma begun_single [simp]: "begun ob [e] = (if isBeginOf ob e then 1 else 0)"
  by (simp add: begun_def)

lemma begun_zero: "\<forall>a. BeginCall a ob \<notin> set es \<Longrightarrow> begun ob es = 0"
proof (induction es)
  case Nil
  then show ?case by simp
next
  case (Cons e es)
  then have "\<not> isBeginOf ob e" by (cases e) auto
  with Cons show ?case by (simp add: begun_def)
qed

lemma preserves_beginFieldsD:
  assumes "preserves (beginFields ob) f"
  shows "o_started (opts (f h) ob) = o_started (opts h ob)"
    and "o_first (opts (f h) ob) = o_first (opts h ob)"
    and "o_begin (opts (f h) ob) = o_begin (opts h ob)"
  using preservesD [OF assms, of h] by (simp_all add: beginFields_def)

lemma toNumber_zero: "toNumber c = CNum 0 \<longleftrightarrow> c = CNum 0"
  by (cases c) simp_all

lemma beginBlock_skipped:
  assumes "flags (calls (heap s) a) AND STARTED env = 0" "options (calls (heap s) a) = None"
  shows "beginBlock env a s = Throw TypeError s"
  using assms by (simp add: beginBlock_def)

text \<open>The begin block of a call that is not STARTED and has the Options object \<open>ob'\<close>.\<close>

lemma beginBlock_effect:
  assumes pr: "preserves (beginFields ob) (beginCall env a)"
    and fl: "flags (calls (heap s) a) AND STARTED env = 0"
    and op: "options (calls (heap s) a) = Some ob'"
  shows "is_Normal (beginBlock env a s)"
    and "trace (state_of (beginBlock env a s)) =
           trace s @ (if o_started (opts (heap s) ob') = CNum 0 \<and> o_begin (opts (heap s) ob') \<noteq> None
                      then [BeginCall a ob'] else [])"
    and "beginFields ob (heap (state_of (beginBlock env a s))) =
           (if ob = ob' then
              (increment (toNumber (o_started (opts (heap s) ob))),
               (if o_started (opts (heap s) ob) = CNum 0 then Some a else o_first (opts (heap s) ob)),
               (if o_started (opts (heap s) ob) = CNum 0 then None else o_begin (opts (heap s) ob)))
            else beginFields ob (heap s))"
proof -
  show "is_Normal (beginBlock env a s)"
    using fl op by (simp add: beginBlock_def Let_def)
  show "trace (state_of (beginBlock env a s)) =
           trace s @ (if o_started (opts (heap s) ob') = CNum 0 \<and> o_begin (opts (heap s) ob') \<noteq> None
                      then [BeginCall a ob'] else [])"
    using fl op by (auto simp: beginBlock_def Let_def toNumber_zero split: option.splits)
  show "beginFields ob (heap (state_of (beginBlock env a s))) =
           (if ob = ob' then
              (increment (toNumber (o_started (opts (heap s) ob))),
               (if o_started (opts (heap s) ob) = CNum 0 then Some a else o_first (opts (heap s) ob)),
               (if o_started (opts (heap s) ob) = CNum 0 then None else o_begin (opts (heap s) ob)))
            else beginFields ob (heap s))"
    using fl op preserves_beginFieldsD [OF pr]
    by (auto simp: beginBlock_def Let_def toNumber_zero beginFields_def split: option.splits)
qed

text \<open>What is carried through a pass: the begin-once invariant, and a counter that is not reset.\<close>

lemma beginInv_collab:
  assumes "preserves (beginFields ob) f" "\<not> isBeginOf ob e"
    and "beginInv ob s \<and> notReset c (o_started (opts (heap s) ob))"
  shows "beginInv ob (collab e f s) \<and> notReset c (o_started (opts (heap (collab e f s)) ob))"
proof -
  have "\<And>a. BeginCall a ob \<noteq> e" using assms(2) by auto
  then show ?thesis
    using assms(2,3) preserves_beginFieldsD [OF assms(1)]
    by (simp add: beginInv_def)
qed

lemma beginInv_beginBlock:
  assumes pr: "preserves (beginFields ob) (beginCall env a)"
    and inv: "beginInv ob s \<and> notReset c (o_started (opts (heap s) ob))"
  shows "beginInv ob (state_of (beginBlock env a s)) \<and>
         notReset c (o_started (opts (heap (state_of (beginBlock env a s))) ob))"
proof (cases "flags (calls (heap s) a) AND STARTED env = 0")
  case False
  then show ?thesis using inv by (simp add: beginBlock_def)
next
  case fl: True
  show ?thesis
  proof (cases "options (calls (heap s) a)")
    case None
    then show ?thesis using inv fl by (simp add: beginBlock_skipped)
  next
    case (Some ob')
    let ?s' = "state_of (beginBlock env a s)"
    note E = beginBlock_effect [OF pr fl Some]
    show ?thesis
    proof (cases "ob = ob'")
      case False
      then have tr: "\<And>b. BeginCall b ob \<in> set (trace ?s') \<longleftrightarrow> BeginCall b ob \<in> set (trace s)"
        and bg: "begun ob (trace ?s') = begun ob (trace s)"
        using E(2) by auto
      have "beginFields ob (heap ?s') = beginFields ob (heap s)" using E(3) False by simp
      then have same: "o_started (opts (heap ?s') ob) = o_started (opts (heap s) ob)"
        "o_first (opts (heap ?s') ob) = o_first (opts (heap s) ob)"
        "o_begin (opts (heap ?s') ob) = o_begin (opts (heap s) ob)"
        by (simp_all add: beginFields_def)
      show ?thesis using inv by (simp add: beginInv_def tr bg same)
    next
      case True
      show ?thesis
      proof (cases "o_started (opts (heap s) ob) = CNum 0")
        case zero: True
        have none: "\<forall>b. BeginCall b ob \<notin> set (trace s)"
          using inv zero by (auto simp: beginInv_def)
        then have b0: "begun ob (trace s) = 0" by (rule begun_zero)
        have st: "o_started (opts (heap ?s') ob) = CNum 1"
          and fi: "o_first (opts (heap ?s') ob) = Some a"
          and be: "o_begin (opts (heap ?s') ob) = None"
          using E(3) True zero by (simp_all add: beginFields_def)
        have tr: "\<And>b. BeginCall b ob \<in> set (trace ?s') \<Longrightarrow> b = a"
          using E(2) True none by (auto split: if_splits)
        have bg: "begun ob (trace ?s') \<le> 1"
          using E(2) True b0 by simp
        have nr: "notReset c (CNum 1)"
          using inv zero by (auto simp: notReset_def)
        show ?thesis
          using st fi be tr bg nr by (auto simp: beginInv_def)
      next
        case nonzero: False
        have tr: "trace ?s' = trace s" using E(2) True nonzero by simp
        have st: "o_started (opts (heap ?s') ob) = increment (toNumber (o_started (opts (heap s) ob)))"
          and fi: "o_first (opts (heap ?s') ob) = o_first (opts (heap s) ob)"
          and be: "o_begin (opts (heap ?s') ob) = o_begin (opts (heap s) ob)"
          using E(3) True nonzero by (simp_all add: beginFields_def)
        have up: "\<And>n. o_started (opts (heap s) ob) = CNum n \<Longrightarrow>
                    o_started (opts (heap ?s') ob) = CNum (n + 1)"
          using st by simp
        have i: "beginInv ob ?s'"
          using inv up by (auto simp: beginInv_def tr fi be)
        have n: "notReset c (o_started (opts (heap ?s') ob))"
          unfolding notReset_def
        proof (intro allI impI)
          fix k assume "c = CNum k"
          with inv obtain m where m: "m \<ge> k" "o_started (opts (heap s) ob) = CNum m"
            by (auto simp: notReset_def)
          from up [OF m(2)] m(1) show "\<exists>m\<ge>k. o_started (opts (heap ?s') ob) = CNum m"
            by auto
        qed
        from i n show ?thesis by simp
      qed
    qed
  qed
qed

lemma finalizeTweens_invariant:
  assumes "\<And>el p v f s. Q s \<Longrightarrow>
             Q (collab (SetPropertyValue el p v f) (setPropertyValue env el p v f) s)"
    and "Q s"
  shows "Q (state_of (finalizeTweens env a ps s))"
  using assms(2)
proof (induction ps arbitrary: s)
  case Nil
  then show ?case by simp
next
  case (Cons p ps)
  show ?case
  proof (cases "map_of (tweens (calls (heap s) a)) p")
    case None
    with Cons.prems show ?thesis by simp
  next
    case (Some tween)
    show ?thesis
    proof (cases "finalValue env tween")
      case (Inl e)
      with Some Cons.prems show ?thesis by simp
    next
      case (Inr v)
      have "Q (collab (SetPropertyValue (element (calls (heap s) a)) p v (fn tween))
                 (setPropertyValue env (element (calls (heap s) a)) p v (fn tween)) s)"
        using Cons.prems by (rule assms(1))
      from Cons.IH [OF this] Some Inr show ?thesis by simp
    qed
  qed
qed

lemma check_invariant:
  assumes val: "\<And>s. Q s \<Longrightarrow> Q (collab (ValidateTweens a) (validateTweens env a) s)"
    and beg: "\<And>s. Q s \<Longrightarrow> Q (state_of (beginBlock env a s))"
    and set: "\<And>el p v f s. Q s \<Longrightarrow>
             Q (collab (SetPropertyValue el p v f) (setPropertyValue env el p v f) s)"
    and com: "\<And>s. Q s \<Longrightarrow> Q (collab (CompleteCall a) (completeCall env a) s)"
    and "Q s"
  shows "Q (state_of (checkAnimationShouldBeFinished env a qn dq s))"
proof -
  let ?s1 = "collab (ValidateTweens a) (validateTweens env a) s"
  have q1: "Q ?s1" using \<open>Q s\<close> by (rule val)
  have fc: "Q (state_of (forceComplete env a ?s1))"
  proof (cases "beginBlock env a ?s1")
    case (Throw e s')
    with beg [OF q1] show ?thesis by (simp add: forceComplete_def)
  next
    case (Normal s2)
    with beg [OF q1] have q2: "Q s2" by simp
    let ?r3 = "finalizeTweens env a (map fst (tweens (calls (heap s2) a))) s2"
    have q3: "Q (state_of ?r3)" using set q2 by (rule finalizeTweens_invariant)
    show ?thesis
    proof (cases ?r3)
      case (Throw e s')
      with q3 Normal show ?thesis by (simp add: forceComplete_def)
    next
      case n3: (Normal s3)
      with q3 have "Q s3" by simp
      then have "Q (collab (CompleteCall a) (completeCall env a) s3)" by (rule com)
      with Normal n3 show ?thesis by (simp add: forceComplete_def)
    qed
  qed
  show ?thesis
    using q1 fc by (simp add: checkAnimationShouldBeFinished_def Let_def)
qed

lemma framedD:
  assumes "framed env obs"
  shows "preserves obs (validateTweens env a)" "preserves obs (beginCall env a)"
    "preserves obs (setPropertyValue env el p v f)" "preserves obs (completeCall env a)"
    "preserves obs (thenResolver env)" "preserves obs (resolver env els)"
  using assms by (simp_all add: framed_def)

text \<open>
  C2: for an Options object shared by a group of calls, whose begin fields the
  collaborators leave alone, the begin callback is invoked at most once, however many
  calls of the group are finished, in whatever order and by however many invocations of
  \<^verbatim>\<open>finish\<close>: the begin-once invariant is kept by every invocation that returns. It is
  invoked on the transition of \<^verbatim>\<open>_started\<close> from 0 to 1, and then \<^verbatim>\<open>_first\<close> is that call
  and \<^verbatim>\<open>begin\<close> is cleared. A \<^verbatim>\<open>_started\<close> that is a number stays a number and does not
  decrease.
\<close>

theorem begin_once:
  assumes "framed env (beginFields ob)"
    and "beginInv ob s"
    and "finish env this mq fa s = Some r"
  shows "begun ob (trace (state_of r)) \<le> 1 \<and>
         (\<forall>a. BeginCall a ob \<in> set (trace (state_of r)) \<longrightarrow>
            o_first (opts (heap (state_of r)) ob) = Some a \<and>
            o_begin (opts (heap (state_of r)) ob) = None \<and>
            (\<exists>n\<ge>1. o_started (opts (heap (state_of r)) ob) = CNum n)) \<and>
         (\<forall>n. o_started (opts (heap s) ob) = CNum n \<longrightarrow>
            (\<exists>m\<ge>n. o_started (opts (heap (state_of r)) ob) = CNum m)) \<and>
         (\<forall>a t. BeginCall a ob \<in> set (trace (state_of (beginBlock env a t))) \<longrightarrow>
            BeginCall a ob \<notin> set (trace t) \<longrightarrow>
            o_started (opts (heap t) ob) = CNum 0 \<and>
            beginFields ob (heap (state_of (beginBlock env a t))) = (CNum 1, Some a, None))"
proof -
  note fr = framedD [OF assms(1)]
  define c where "c = o_started (opts (heap s) ob)"
  let ?Q = "\<lambda>s. beginInv ob s \<and> notReset c (o_started (opts (heap s) ob))"
  have q0: "?Q s" using assms(2) by (simp add: c_def notReset_def)
  have chk: "\<And>b qn dq s. ?Q s \<Longrightarrow> ?Q (state_of (checkAnimationShouldBeFinished env b qn dq s))"
  proof -
    fix b qn dq and t :: "'a mstate"
    assume qt: "?Q t"
    show "?Q (state_of (checkAnimationShouldBeFinished env b qn dq t))"
    proof (rule check_invariant [where Q = ?Q, OF _ _ _ _ qt])
      fix u :: "'a mstate" assume "?Q u"
      then show "?Q (collab (ValidateTweens b) (validateTweens env b) u)"
        by (intro beginInv_collab fr) simp_all
    next
      fix u :: "'a mstate" assume "?Q u"
      then show "?Q (state_of (beginBlock env b u))"
        by (intro beginInv_beginBlock fr)
    next
      fix el p v f and u :: "'a mstate" assume "?Q u"
      then show "?Q (collab (SetPropertyValue el p v f) (setPropertyValue env el p v f) u)"
        by (intro beginInv_collab fr) simp_all
    next
      fix u :: "'a mstate" assume "?Q u"
      then show "?Q (collab (CompleteCall b) (completeCall env b) u)"
        by (intro beginInv_collab fr) simp_all
    qed
  qed
  have val: "\<And>b s. ?Q s \<Longrightarrow> ?Q (collab (ValidateTweens b) (validateTweens env b) s)"
    by (intro beginInv_collab fr) simp_all
  have thn: "\<And>s. ?Q s \<Longrightarrow> ?Q (collab ThenResolver (thenResolver env) s)"
    by (intro beginInv_collab fr) simp_all
  have res: "\<And>els s. ?Q s \<Longrightarrow> ?Q (collab Resolver (resolver env els) s)"
    by (intro beginInv_collab fr) simp_all
  have fin: "?Q (state_of r)"
    by (rule finish_invariant [where Q = ?Q, OF assms(3) chk val thn res q0])
  have once: "begun ob (trace (state_of r)) \<le> 1"
    and first: "\<forall>a. BeginCall a ob \<in> set (trace (state_of r)) \<longrightarrow>
            o_first (opts (heap (state_of r)) ob) = Some a \<and>
            o_begin (opts (heap (state_of r)) ob) = None \<and>
            (\<exists>n\<ge>1. o_started (opts (heap (state_of r)) ob) = CNum n)"
    using fin by (simp_all add: beginInv_def)
  have mono: "\<forall>n. o_started (opts (heap s) ob) = CNum n \<longrightarrow>
            (\<exists>m\<ge>n. o_started (opts (heap (state_of r)) ob) = CNum m)"
    using fin by (simp add: notReset_def c_def)
  have trans: "\<forall>a t. BeginCall a ob \<in> set (trace (state_of (beginBlock env a t))) \<longrightarrow>
            BeginCall a ob \<notin> set (trace t) \<longrightarrow>
            o_started (opts (heap t) ob) = CNum 0 \<and>
            beginFields ob (heap (state_of (beginBlock env a t))) = (CNum 1, Some a, None)"
  proof (intro allI impI)
    fix a and t :: "'a mstate"
    assume new: "BeginCall a ob \<in> set (trace (state_of (beginBlock env a t)))"
      and old: "BeginCall a ob \<notin> set (trace t)"
    have fl: "flags (calls (heap t) a) AND STARTED env = 0"
      using new old by (cases "flags (calls (heap t) a) AND STARTED env = 0") (auto simp: beginBlock_def)
    obtain ob' where op: "options (calls (heap t) a) = Some ob'"
      using new old fl by (cases "options (calls (heap t) a)") (auto simp: beginBlock_skipped)
    note E = beginBlock_effect [OF fr(2) fl op]
    from E(2) new old have "ob' = ob" and z: "o_started (opts (heap t) ob') = CNum 0"
      by (auto split: if_splits)
    with E(3) show "o_started (opts (heap t) ob) = CNum 0 \<and>
            beginFields ob (heap (state_of (beginBlock env a t))) = (CNum 1, Some a, None)"
      by simp
  qed
  from once first mono trans show ?thesis by blast
qed


theorem begin_once_witness:
  "\<exists>r. finish exEnv exBoundThis MQUndefined False exStart = Some r \<and>
       begun 0 (trace (state_of r)) \<le> 1 \<and>
       BeginCall 0 0 \<in> set (trace (state_of r)) \<and>
       o_first (opts (heap (state_of r)) 0) = Some 0 \<and>
       o_begin (opts (heap (state_of r)) 0) = None \<and>
       completed 0 (trace (state_of r)) = 1 \<and> completed 1 (trace (state_of r)) = 1"
proof -
  let ?r = "case finishAnimations exEnv (validateQueue MQUndefined)
                   (Some (defaults_queue (heap exStart))) [0, 1] exStart of
              Throw e s' \<Rightarrow> Throw e s'
            | Normal s' \<Rightarrow> Normal (notify exEnv exBoundThis
                 (exElements\<lparr>isAnimation := True, animations := Some [0, 1]\<rparr>) s')"
  have fin: "finish exEnv exBoundThis MQUndefined False exStart = Some ?r"
    by (rule finish_bound) (simp_all add: exBoundThis_def exElements_def)
  have fr: "framed exEnv (beginFields 0)"
    by (simp add: framed_def preserves_def beginFields_def exValidateTweens_def exCompleteCall_def Let_def)
  have inv: "beginInv 0 exStart"
    by (simp add: beginInv_def exStart_def)
  note B = begin_once [OF fr inv fin]
  have tr: "trace (state_of ?r) =
        [ValidateTweens 0, BeginCall 0 0, SetPropertyValue (Some 7) ''x'' ''100px'' 0, CompleteCall 0,
         ValidateTweens 1, SetPropertyValue (Some 7) ''x'' ''100px'' 0, CompleteCall 1, Resolver]"
    by (simp add: check_defs ex_defs collab_def upd_opts_def upd_call_def walkPattern.simps
        intToString_100 notify_def)
  have "BeginCall 0 0 \<in> set (trace (state_of ?r))"
    and "completed 0 (trace (state_of ?r)) = 1" and "completed 1 (trace (state_of ?r)) = 1"
    unfolding tr by simp_all
  with B fin show ?thesis by blast
qed

subsection \<open>The bound animation set\<close>

lemma validated_append [simp]: "validated (xs @ ys) = validated xs @ validated ys"
  by (induction xs rule: validated.induct) simp_all

lemma validated_about: "\<forall>e \<in> set es. about a e \<Longrightarrow> validated es = []"
proof (induction es)
  case Nil
  then show ?case by simp
next
  case (Cons e es)
  then show ?case by (cases e) simp_all
qed

lemma finishAnimations_trace:
  "\<exists>es. trace (state_of (finishAnimations env qn dq cs s)) = trace s @ es \<and>
        (\<exists>k. validated es = take k cs) \<and>
        (is_Normal (finishAnimations env qn dq cs s) \<longrightarrow> validated es = cs) \<and>
        (\<forall>e \<in> set es. \<exists>a \<in> set cs. e = ValidateTweens a \<or> about a e)"
proof (induction cs arbitrary: s)
  case Nil
  then show ?case by simp
next
  case (Cons c cs)
  obtain es1 where es1:
    "trace (state_of (checkAnimationShouldBeFinished env c qn dq s)) = trace s @ ValidateTweens c # es1"
    "\<forall>e \<in> set es1. about c e"
    using check_trace by blast
  have v1: "validated (ValidateTweens c # es1) = [c]"
    using validated_about [OF es1(2)] by simp
  have m1: "\<forall>e \<in> set (ValidateTweens c # es1). \<exists>a \<in> set (c # cs). e = ValidateTweens a \<or> about a e"
    using es1(2) by auto
  show ?case
  proof (cases "checkAnimationShouldBeFinished env c qn dq s")
    case (Throw e s')
    then have t: "trace (state_of (finishAnimations env qn dq (c # cs) s)) = trace s @ (ValidateTweens c # es1)"
      and n: "\<not> is_Normal (finishAnimations env qn dq (c # cs) s)"
      using es1(1) by simp_all
    have "validated (ValidateTweens c # es1) = take 1 (c # cs)" using v1 by simp
    then have "\<exists>k. validated (ValidateTweens c # es1) = take k (c # cs)" by blast
    with t n m1 show ?thesis by blast
  next
    case (Normal s')
    from Cons.IH [of s'] obtain es2 k where es2:
      "trace (state_of (finishAnimations env qn dq cs s')) = trace s' @ es2"
      "validated es2 = take k cs"
      "is_Normal (finishAnimations env qn dq cs s') \<longrightarrow> validated es2 = cs"
      "\<forall>e \<in> set es2. \<exists>a \<in> set cs. e = ValidateTweens a \<or> about a e"
      by blast
    let ?es = "(ValidateTweens c # es1) @ es2"
    have s': "trace s' = trace s @ ValidateTweens c # es1" using es1(1) Normal by simp
    have t: "trace (state_of (finishAnimations env qn dq (c # cs) s)) = trace s @ ?es"
      using Normal es2(1) s' by simp
    have "validated ?es = take (Suc k) (c # cs)"
      using v1 es2(2) by simp
    then have k: "\<exists>k. validated ?es = take k (c # cs)" by blast
    have n: "is_Normal (finishAnimations env qn dq (c # cs) s) \<longrightarrow> validated ?es = c # cs"
      using Normal es2(3) v1 by simp
    have m: "\<forall>e \<in> set ?es. \<exists>a \<in> set (c # cs). e = ValidateTweens a \<or> about a e"
      using m1 es2(4) by auto
    from t k n m show ?thesis by blast
  qed
qed

lemma notify_trace:
  "\<exists>ns. trace (notify env this els s) = trace s @ ns \<and> validated ns = [] \<and>
        (\<forall>e \<in> set ns. e = ThenResolver \<or> e = Resolver)"
  by (auto simp: notify_def split: option.splits)

lemma forceComplete_keeps:
  assumes "framed env obs" "stable obs"
  shows "obs (heap (state_of (forceComplete env a s))) = obs (heap s)"
proof (cases "beginBlock env a s")
  case (Throw e s')
  with beginBlock_keeps [OF framedD(2) [OF assms(1)] assms(2), of a s] show ?thesis
    by (simp add: forceComplete_def)
next
  case (Normal s2)
  with beginBlock_keeps [OF framedD(2) [OF assms(1)] assms(2), of a s]
  have k2: "obs (heap s2) = obs (heap s)" by simp
  let ?r3 = "finalizeTweens env a (map fst (tweens (calls (heap s2) a))) s2"
  have k3: "obs (heap (state_of ?r3)) = obs (heap s2)"
    using framedD(3) [OF assms(1)] by (intro finalizeTweens_keeps) simp
  show ?thesis
  proof (cases ?r3)
    case (Throw e s')
    with Normal k2 k3 show ?thesis by (simp add: forceComplete_def)
  next
    case n3: (Normal s3)
    with Normal k2 k3 preservesD [OF framedD(4) [OF assms(1)], of a "heap s3"] show ?thesis
      by (simp add: forceComplete_def)
  qed
qed

lemma check_keeps:
  assumes "framed env obs" "stable obs"
  shows "obs (heap (state_of (checkAnimationShouldBeFinished env a qn dq s))) = obs (heap s)"
  using forceComplete_keeps [OF assms, of a "collab (ValidateTweens a) (validateTweens env a) s"]
    preservesD [OF framedD(1) [OF assms(1)], of a "heap s"]
  by (simp add: checkAnimationShouldBeFinished_def Let_def)

lemma stable_first: "stable (\<lambda>h. (first h, firstNew h))"
  by (simp add: stable_def)

lemma stable_element: "stable (\<lambda>h. element (calls h a))"
  by (simp add: stable_def)

text \<open>
  C7: an invocation against a bound animation set (the elements value is an Animation
  with a list \<^verbatim>\<open>velocity.animations\<close>, and has at least one element) always returns, and
  applies the check to exactly the calls of that list, once each and in order, up to
  the first exception: apart from the notification of a waiting caller, every event of
  the pass is the validation of a call of the list or a begin, commit or complete step
  of the check of such a call. No other call is finished. Where the collaborators
  leave \<^verbatim>\<open>State.first\<close> and \<^verbatim>\<open>State.firstNew\<close> as they are, so does the pass.
\<close>

theorem bound_set_only:
  assumes "elements this = Some els" "items els \<noteq> []" "isAnimation els" "animations els = Some cs"
  shows "\<exists>r. finish env this mq fa \<lparr>heap = h, trace = []\<rparr> = Some r \<and>
           (is_Normal r \<longrightarrow> validated (trace (state_of r)) = cs) \<and>
           (\<exists>k. validated (trace (state_of r)) = take k cs) \<and>
           (\<forall>e \<in> set (trace (state_of r)).
               e = ThenResolver \<or> e = Resolver \<or> (\<exists>a \<in> set cs. e = ValidateTweens a \<or> about a e)) \<and>
           (framed env (\<lambda>h. (first h, firstNew h)) \<longrightarrow>
              first (heap (state_of r)) = first h \<and> firstNew (heap (state_of r)) = firstNew h)"
proof -
  let ?s = "\<lparr>heap = h, trace = []\<rparr> :: 'a mstate"
  let ?r1 = "finishAnimations env (validateQueue mq) (Some (defaults_queue (heap ?s))) cs ?s"
  let ?r = "case ?r1 of Throw e s' \<Rightarrow> Throw e s' | Normal s' \<Rightarrow> Normal (notify env this els s')"
  have fin: "finish env this mq fa ?s = Some ?r"
    using assms by (rule finish_bound)
  from finishAnimations_trace [of env "validateQueue mq" "Some (defaults_queue (heap ?s))" cs ?s]
  obtain es k where es0: "trace (state_of ?r1) = trace ?s @ es" "validated es = take k cs"
    "is_Normal ?r1 \<longrightarrow> validated es = cs"
    "\<forall>e \<in> set es. \<exists>a \<in> set cs. e = ValidateTweens a \<or> about a e"
    by blast
  from es0(1) have "trace (state_of ?r1) = es" by simp
  note es = this es0(2-4)
  have shape: "(is_Normal ?r \<longrightarrow> validated (trace (state_of ?r)) = cs) \<and>
           (\<exists>k. validated (trace (state_of ?r)) = take k cs) \<and>
           (\<forall>e \<in> set (trace (state_of ?r)).
               e = ThenResolver \<or> e = Resolver \<or> (\<exists>a \<in> set cs. e = ValidateTweens a \<or> about a e))"
  proof (cases ?r1)
    case (Throw e s')
    then have "state_of ?r = state_of ?r1" "\<not> is_Normal ?r" by simp_all
    with es show ?thesis by auto
  next
    case (Normal s')
    obtain ns where ns: "trace (notify env this els s') = trace s' @ ns" "validated ns = []"
      "\<forall>e \<in> set ns. e = ThenResolver \<or> e = Resolver"
      using notify_trace by blast
    have t: "trace (state_of ?r) = es @ ns" using Normal ns(1) es(1) by simp
    have v: "validated (es @ ns) = cs" using es(3) Normal ns(2) by simp
    then have "validated (es @ ns) = take (length cs) cs" by simp
    then have k: "\<exists>k. validated (es @ ns) = take k cs" by blast
    have m: "\<forall>e \<in> set (es @ ns).
               e = ThenResolver \<or> e = Resolver \<or> (\<exists>a \<in> set cs. e = ValidateTweens a \<or> about a e)"
      using es(4) ns(3) by auto
    from v k m show ?thesis unfolding t by blast
  qed
  have keeps: "framed env (\<lambda>h. (first h, firstNew h)) \<longrightarrow>
              first (heap (state_of ?r)) = first h \<and> firstNew (heap (state_of ?r)) = firstNew h"
  proof
    assume fr: "framed env (\<lambda>h. (first h, firstNew h))"
    let ?obs = "\<lambda>h :: 'a State. (first h, firstNew h)"
    let ?Q = "\<lambda>s :: 'a mstate. ?obs (heap s) = ?obs h"
    have "?Q (state_of ?r)"
    proof (rule finish_invariant [where Q = ?Q, OF fin])
      fix b qn dq and t :: "'a mstate" assume "?Q t"
      then show "?Q (state_of (checkAnimationShouldBeFinished env b qn dq t))"
        using check_keeps [OF fr stable_first, of b qn dq t] by simp
    next
      fix b and t :: "'a mstate" assume "?Q t"
      then show "?Q (collab (ValidateTweens b) (validateTweens env b) t)"
        using preservesD [OF framedD(1) [OF fr], of b "heap t"] by simp
    next
      fix t :: "'a mstate" assume "?Q t"
      then show "?Q (collab ThenResolver (thenResolver env) t)"
        using preservesD [OF framedD(5) [OF fr], of "heap t"] by simp
    next
      fix els' and t :: "'a mstate" assume "?Q t"
      then show "?Q (collab Resolver (resolver env els') t)"
        using preservesD [OF framedD(6) [OF fr], of els' "heap t"] by simp
    next
      show "?Q ?s" by simp
    qed
    then show "first (heap (state_of ?r)) = first h \<and> firstNew (heap (state_of ?r)) = firstNew h"
      by simp
  qed
  from fin shape keeps show ?thesis by blast
qed

theorem bound_set_only_witness:
  "\<exists>r. finish exInertEnv exBoundThis MQUndefined True
           \<lparr>heap = (exHeap 0)\<lparr>first := Some 5, firstNew := Some 5\<rparr>, trace = []\<rparr> = Some r \<and>
       is_Normal r \<and>
       validated (trace (state_of r)) = [0, 1] \<and>
       ValidateTweens 5 \<notin> set (trace (state_of r)) \<and> CompleteCall 5 \<notin> set (trace (state_of r)) \<and>
       first (heap (state_of r)) = Some 5 \<and> firstNew (heap (state_of r)) = Some 5"
proof -
  let ?h = "(exHeap 0)\<lparr>first := Some 5, firstNew := Some 5\<rparr>"
  have e: "elements exBoundThis = Some (exElements\<lparr>isAnimation := True, animations := Some [0, 1]\<rparr>)"
    by (simp add: exBoundThis_def)
  have fr: "framed exInertEnv (\<lambda>h. (first h, firstNew h))"
    by (simp add: framed_def preserves_def exInertEnv_def)
  from bound_set_only [OF e, of "[0, 1]" exInertEnv MQUndefined True ?h]
  obtain r where r: "finish exInertEnv exBoundThis MQUndefined True \<lparr>heap = ?h, trace = []\<rparr> = Some r"
    "is_Normal r \<longrightarrow> validated (trace (state_of r)) = [0, 1]"
    "\<forall>e \<in> set (trace (state_of r)).
        e = ThenResolver \<or> e = Resolver \<or> (\<exists>a \<in> set [0, 1]. e = ValidateTweens a \<or> about a e)"
    "framed exInertEnv (\<lambda>h. (first h, firstNew h)) \<longrightarrow>
              first (heap (state_of r)) = first ?h \<and> firstNew (heap (state_of r)) = firstNew ?h"
    by (auto simp: exElements_def)
  have n: "is_Normal (the (finish exInertEnv exBoundThis MQUndefined True \<lparr>heap = ?h, trace = []\<rparr>))"
    by (simp add: finish_def check_defs ex_defs exInertEnv_def collab_def upd_opts_def upd_call_def
        walkPattern.simps notify_def)
  with r(1) have "is_Normal r" by simp
  moreover have "ValidateTweens 5 \<notin> set (trace (state_of r))" "CompleteCall 5 \<notin> set (trace (state_of r))"
    using r(3) by auto
  ultimately show ?thesis using r fr by (auto simp: exHeap_def)
qed


subsection \<open>The global sweep\<close>

lemma drainFirstNew_empty: "firstNew (heap s) = None \<Longrightarrow> drainFirstNew env s = Some s"
  by (subst drainFirstNew.simps) simp

lemma sweep_end: "sweep env els qn dq fa None s = Some (Normal s)"
  by (subst sweep.simps) simp


lemma sweep_step:
  assumes "fa \<or> Some a \<noteq> firstNew (heap s)"
    and "targeted els (element (calls (heap s) a))"
    and "checkAnimationShouldBeFinished env a qn dq s = Normal s'"
  shows "sweep env els qn dq fa (Some a) s =
         sweep env els qn dq fa
           (case c_next (calls (heap s) a) of Some n \<Rightarrow> Some n | None \<Rightarrow> firstNew (heap s')) s'"
  using assms by (subst sweep.simps) (simp add: Let_def)

lemma finish_global_result:
  assumes "elements this = Some els" "items els \<noteq> []" "\<not> isAnimation els \<or> animations els = None"
    and "drainFirstNew env s = Some s1"
    and "sweep env (Some els) (validateQueue mq) (Some (defaults_queue (heap s)))
           (if mq = MQTrue then True else fa) (first (heap s1)) s1 = Some r1"
  shows "finish env this mq fa s =
         Some (case r1 of Throw e s' \<Rightarrow> Throw e s' | Normal s' \<Rightarrow> Normal (notify env this els s'))"
proof -
  have none: "(if isAnimation els then animations els else None) = None"
    using assms(3) by auto
  define fa' where "fa' = (if mq = MQTrue then True else fa)"
  have sw: "sweep env (Some els) (validateQueue mq) (Some (defaults_queue (heap s))) fa'
              (first (heap s1)) s1 = Some r1"
    using assms(5) by (simp add: fa'_def)
  show ?thesis
    unfolding finish_def Let_def assms(1) fa'_def [symmetric]
    using sw by (simp add: assms(2,4) none split: result.splits)
qed

text \<open>
  C10: in the global branch, the check is applied to an active call only when the
  element of the call is a member of the element set of the invocation, a set that is
  not empty: every call for which a pass of the global branch invokes the begin
  callback or \<^verbatim>\<open>completeCall\<close> has its element in that set, for collaborators that do
  not change the element of a call. The walk is never started with an absent element
  set, the case in which it would finish every active call.
\<close>

theorem global_sweep_targets_only:
  assumes "framed env (\<lambda>h. element (calls h a))"
    and "elements this = Some els" "\<not> isAnimation els \<or> animations els = None"
    and "finish env this mq fa \<lparr>heap = h, trace = []\<rparr> = Some r"
    and "CompleteCall a \<in> set (trace (state_of r)) \<or> (\<exists>ob. BeginCall a ob \<in> set (trace (state_of r)))"
  shows "items els \<noteq> [] \<and> (\<exists>x. element (calls h a) = Some x \<and> x \<in> set (items els))"
proof -
  note fr = assms(1)
  let ?s = "\<lparr>heap = h, trace = []\<rparr> :: 'a mstate"
  let ?done = "\<lambda>s :: 'a mstate. CompleteCall a \<in> set (trace s) \<or> (\<exists>ob. BeginCall a ob \<in> set (trace s))"
  let ?Q = "\<lambda>s :: 'a mstate. element (calls (heap s) a) = element (calls h a) \<and>
              (?done s \<longrightarrow> targeted (Some els) (element (calls h a)))"
  have ne: "items els \<noteq> []"
  proof
    assume "items els = []"
    then have "finish env this mq fa ?s = Some (Normal ?s)"
      using assms(2) by (simp add: finish_def)
    with assms(4) have "r = Normal ?s" by simp
    with assms(5) show False by simp
  qed
  from finish_global [OF assms(2) ne assms(3,4)] obtain s1 r1 where
    d: "drainFirstNew env ?s = Some s1"
    and sw: "sweep env (Some els) (validateQueue mq) (Some (defaults_queue (heap ?s)))
             (if mq = MQTrue then True else fa) (first (heap s1)) s1 = Some r1"
    and r: "r = (case r1 of Throw e s' \<Rightarrow> Throw e s' | Normal s' \<Rightarrow> Normal (notify env this els s'))"
    by blast
  have other: "\<And>e f t. ?Q t \<Longrightarrow> preserves (\<lambda>h :: 'a State. element (calls h a)) f \<Longrightarrow>
                 e \<noteq> CompleteCall a \<Longrightarrow> \<not> isBegin e \<Longrightarrow> ?Q (collab e f t)"
  proof -
    fix e and f :: "'a State \<Rightarrow> 'a State" and t :: "'a mstate"
    assume q: "?Q t" and p: "preserves (\<lambda>h :: 'a State. element (calls h a)) f"
      and e: "e \<noteq> CompleteCall a" "\<not> isBegin e"
    have "\<And>ob. e \<noteq> BeginCall a ob" using e(2) by auto
    with q e(1) preservesD [OF p, of "heap t"] show "?Q (collab e f t)" by auto
  qed
  have q0: "?Q ?s" by simp
  have q1: "?Q s1"
  proof (rule drainFirstNew_invariant [where Q = ?Q, OF d _ q0])
    fix b and t :: "'a mstate" assume "?Q t"
    then show "?Q (collab (ValidateTweens b) (validateTweens env b) t)"
      by (rule other) (simp_all add: framedD [OF fr])
  qed
  have q2: "?Q (state_of r1)"
  proof (rule sweep_invariant [where Q = ?Q, OF sw _ q1])
    fix b and t :: "'a mstate"
    assume q: "?Q t" and tg: "targeted (Some els) (element (calls (heap t) b))"
    let ?t' = "state_of (checkAnimationShouldBeFinished env b (validateQueue mq)
                 (Some (defaults_queue (heap ?s))) t)"
    have el: "element (calls (heap ?t') a) = element (calls h a)"
      using check_keeps [OF fr stable_element, of b _ _ t] q by simp
    obtain es where es: "trace ?t' = trace t @ ValidateTweens b # es" "\<forall>e \<in> set es. about b e"
      using check_trace by blast
    have "?done ?t' \<longrightarrow> targeted (Some els) (element (calls h a))"
    proof
      assume dn: "?done ?t'"
      show "targeted (Some els) (element (calls h a))"
      proof (cases "?done t")
        case True
        with q show ?thesis by simp
      next
        case False
        with dn es(1) have "CompleteCall a \<in> set es \<or> (\<exists>ob. BeginCall a ob \<in> set es)"
          by auto
        with es(2) have "b = a" by auto
        with tg q show ?thesis by simp
      qed
    qed
    with el show "?Q ?t'" by simp
  qed
  have q3: "?Q (state_of r)"
  proof (cases r1)
    case (Throw e s')
    with r q2 show ?thesis by simp
  next
    case (Normal s')
    with q2 have "?Q s'" by simp
    then have "?Q (notify env this els s')"
    proof (rule notify_invariant [where Q = ?Q, rotated 2])
      fix t :: "'a mstate" assume "?Q t"
      then show "?Q (collab ThenResolver (thenResolver env) t)"
        by (rule other) (simp_all add: framedD [OF fr])
    next
      fix t :: "'a mstate" assume "?Q t"
      then show "?Q (collab Resolver (resolver env els) t)"
        by (rule other) (simp_all add: framedD [OF fr])
    qed
    with r Normal show ?thesis by simp
  qed
  with assms(5) have "targeted (Some els) (element (calls h a))" by blast
  then have "\<exists>x. element (calls h a) = Some x \<and> x \<in> set (items els)"
    by (auto simp: targeted_def split: option.splits)
  with ne show ?thesis by simp
qed

lemma ex_check_0:
  "checkAnimationShouldBeFinished exEnv 0 None (Some (QName '''')) exStart =
   Normal \<lparr>heap = (exHeap 250)
                    \<lparr>first := None,
                      calls := (\<lambda>a. exCall 250)(0 := (exCall 250)\<lparr>flags := 4\<rparr>),
                      opts := (\<lambda>ob. exOptions)
                        (0 := exOptions\<lparr>o_started := CNum 1, o_first := Some 0, o_begin := None\<rparr>)\<rparr>,
           trace = [ValidateTweens 0, BeginCall 0 0,
                    SetPropertyValue (Some 7) ''x'' ''100px'' 0, CompleteCall 0]\<rparr>"
  by (simp add: check_defs ex_defs collab_def upd_opts_def upd_call_def walkPattern.simps
      intToString_100 fun_eq_iff)

theorem global_sweep_targets_only_witness:
  "\<exists>r. finish exEnv exGlobalThis MQUndefined False exStart = Some r \<and>
       CompleteCall 0 \<in> set (trace (state_of r)) \<and>
       element (calls (heap exStart) 0) = Some 7 \<and> 7 \<in> set (items exElements)"
proof -
  define s1 where "s1 = state_of (checkAnimationShouldBeFinished exEnv 0 None (Some (QName '''')) exStart)"
  have chk: "checkAnimationShouldBeFinished exEnv 0 None (Some (QName '''')) exStart = Normal s1"
    unfolding s1_def by (simp add: ex_check_0)
  have fn: "firstNew (heap s1) = None"
    unfolding s1_def by (simp add: ex_check_0 exHeap_def)
  have tr: "trace s1 = [ValidateTweens 0, BeginCall 0 0,
                        SetPropertyValue (Some 7) ''x'' ''100px'' 0, CompleteCall 0]"
    unfolding s1_def by (simp add: ex_check_0)
  have nx: "c_next (calls (heap exStart) 0) = None" by (simp add: ex_defs)
  have d: "drainFirstNew exEnv exStart = Some exStart"
    by (rule drainFirstNew_empty) (simp add: ex_defs)
  have "sweep exEnv (Some exElements) None (Some (QName '''')) False (Some 0) exStart
        = sweep exEnv (Some exElements) None (Some (QName '''')) False
            (case c_next (calls (heap exStart) 0) of Some n \<Rightarrow> Some n | None \<Rightarrow> firstNew (heap s1)) s1"
    by (rule sweep_step [OF _ _ chk]) (simp_all add: ex_defs targeted_def)
  also have "\<dots> = Some (Normal s1)"
    by (simp add: nx fn sweep_end)
  finally have sw: "sweep exEnv (Some exElements) (validateQueue MQUndefined)
      (Some (defaults_queue (heap exStart))) (if MQUndefined = MQTrue then True else False)
      (first (heap exStart)) exStart = Some (Normal s1)"
    by (simp add: exStart_def exHeap_def)
  have fin: "finish exEnv exGlobalThis MQUndefined False exStart
             = Some (Normal (notify exEnv exGlobalThis exElements s1))"
    using finish_global_result [OF _ _ _ d sw, of exGlobalThis] by (simp add: exGlobalThis_def exElements_def)
  have c: "CompleteCall 0 \<in> set (trace (state_of (Normal (notify exEnv exGlobalThis exElements s1))))"
    by (simp add: notify_def exGlobalThis_def exElements_def tr)
  have fr: "framed exEnv (\<lambda>h. element (calls h 0))"
    by (simp add: framed_def preserves_def exValidateTweens_def exCompleteCall_def Let_def)
  have "items exElements \<noteq> [] \<and>
        (\<exists>x. element (calls (heap exStart) 0) = Some x \<and> x \<in> set (items exElements))"
  proof (rule global_sweep_targets_only [OF fr _ _ _ disjI1 [OF c]])
    show "elements exGlobalThis = Some exElements" by (simp add: exGlobalThis_def)
    show "\<not> isAnimation exElements \<or> animations exElements = None" by (simp add: exElements_def)
    show "finish exEnv exGlobalThis MQUndefined False \<lparr>heap = heap exStart, trace = []\<rparr>
          = Some (Normal (notify exEnv exGlobalThis exElements s1))"
      using fin by (simp add: exStart_def)
  qed
  then have "element (calls (heap exStart) 0) = Some 7 \<and> 7 \<in> set (items exElements)"
    by (simp add: ex_defs)
  with fin c show ?thesis by simp
qed


subsection \<open>The staging list and the walk\<close>

lemma notify_observations:
  "completed a (trace (notify env this els s)) = completed a (trace s)"
  "BeginCall a ob \<in> set (trace (notify env this els s)) \<longleftrightarrow> BeginCall a ob \<in> set (trace s)"
  "validated (trace (notify env this els s)) = validated (trace s)"
  by (auto simp: notify_def split: option.splits)

text \<open>The first loop of the global branch ends with nothing staged, and only validates.\<close>

lemma drainFirstNew_unstaged:
  assumes "drainFirstNew env s = Some sd"
  shows "firstNew (heap sd) = None"
proof -
  let ?P = "\<lambda>(env :: 'a Env) (s :: 'a mstate) (sd :: 'a mstate). firstNew (heap sd) = None"
  show ?thesis
    using assms
  proof (rule drainFirstNew.raw_induct [rotated 1, where P = ?P])
    fix d env' and t t1 :: "'a mstate"
    assume IH: "\<And>e u u1. d e u = Some u1 \<Longrightarrow> ?P e u u1"
      and body: "(case firstNew (heap t) of None \<Rightarrow> Some t
                  | Some a \<Rightarrow> d env' (collab (ValidateTweens a) (validateTweens env' a) t)) = Some t1"
    show "?P env' t t1"
    proof (cases "firstNew (heap t)")
      case None
      with body show ?thesis by simp
    next
      case (Some b)
      with body have "d env' (collab (ValidateTweens b) (validateTweens env' b) t) = Some t1"
        by simp
      from IH [OF this] show ?thesis .
    qed
  qed
qed


lemma drainFirstNew_only_validates:
  assumes "drainFirstNew env s = Some sd"
  shows "completed a (trace sd) = completed a (trace s) \<and>
         (\<forall>ob. BeginCall a ob \<in> set (trace sd) \<longleftrightarrow> BeginCall a ob \<in> set (trace s))"
proof -
  let ?Q = "\<lambda>t :: 'a mstate. completed a (trace t) = completed a (trace s) \<and>
         (\<forall>ob. BeginCall a ob \<in> set (trace t) \<longleftrightarrow> BeginCall a ob \<in> set (trace s))"
  show ?thesis
  proof (rule drainFirstNew_invariant [where Q = ?Q, OF assms])
    fix b and t :: "'a mstate" assume "?Q t"
    then show "?Q (collab (ValidateTweens b) (validateTweens env b) t)" by simp
  next
    show "?Q s" by simp
  qed
qed



lemma exEnqueueingEnv_simps [simp]:
  "validateTweens exEnqueueingEnv = exValidateTweens"
  "beginCall exEnqueueingEnv = (\<lambda>a h. h)"
  "setPropertyValue exEnqueueingEnv = (\<lambda>el p v f h. h)"
  "completeCall exEnqueueingEnv = exEnqueueingCompleteCall"
  "STARTED exEnqueueingEnv = 4"
  "numberToString exEnqueueingEnv = intToString"
  "thenResolver exEnqueueingEnv = (\<lambda>h. h)"
  "resolver exEnqueueingEnv = (\<lambda>els h. h)"
  by (simp_all add: exEnqueueingEnv_def exEnv_def)

lemmas eval_defs =
  check_defs ex_defs collab_def upd_opts_def upd_call_def walkPattern.simps
  exEnqueueingCompleteCall_def exStage_def exOutsideHeap_def exListHeap_def


subsection \<open>The queue filter\<close>

text \<open>The assignments of finish.ts do not reach the effective queue of a call.\<close>

lemma effectiveQueue_upd_opts:
  assumes "\<And>r. o_queue (f r) = o_queue r"
  shows "effectiveQueue (heap (upd_opts ob f s)) a dq = effectiveQueue (heap s) a dq"
  using assms by (simp add: upd_opts_def effectiveQueue_def split: option.splits)

lemma effectiveQueue_upd_call:
  assumes "\<And>c. queue (f c) = queue c" "\<And>c. options (f c) = options c"
  shows "effectiveQueue (heap (upd_call b f s)) a dq = effectiveQueue (heap s) a dq"
  using assms by (simp add: upd_call_def effectiveQueue_def split: option.splits)

lemma beginBlock_queue:
  assumes "preserves (\<lambda>h. effectiveQueue h a dq) (beginCall env b)"
  shows "effectiveQueue (heap (state_of (beginBlock env b s))) a dq = effectiveQueue (heap s) a dq"
  using preservesD [OF assms]
  by (auto simp add: beginBlock_def Let_def effectiveQueue_upd_opts effectiveQueue_upd_call
      simp del: heap_upd_opts heap_upd_call split: option.splits)

lemma check_queue_kept:
  assumes fr: "framed env (\<lambda>h. effectiveQueue h a dq)"
  shows "effectiveQueue (heap (state_of (checkAnimationShouldBeFinished env b qn dq' s))) a dq
         = effectiveQueue (heap s) a dq"
proof -
  define E where "E = effectiveQueue (heap s) a dq"
  let ?Q = "\<lambda>t :: 'a mstate. effectiveQueue (heap t) a dq = E"
  have "?Q (state_of (checkAnimationShouldBeFinished env b qn dq' s))"
  proof (rule check_invariant [where Q = ?Q])
    fix t :: "'a mstate" assume "?Q t"
    then show "?Q (collab (ValidateTweens b) (validateTweens env b) t)"
      using preservesD [OF framedD(1) [OF fr], of b "heap t"] by simp
  next
    fix t :: "'a mstate" assume "?Q t"
    then show "?Q (state_of (beginBlock env b t))"
      using beginBlock_queue [OF framedD(2) [OF fr], of b t] by simp
  next
    fix el p v f and t :: "'a mstate" assume "?Q t"
    then show "?Q (collab (SetPropertyValue el p v f) (setPropertyValue env el p v f) t)"
      using preservesD [OF framedD(3) [OF fr], of el p v f "heap t"] by simp
  next
    fix t :: "'a mstate" assume "?Q t"
    then show "?Q (collab (CompleteCall b) (completeCall env b) t)"
      using preservesD [OF framedD(4) [OF fr], of b "heap t"] by simp
  next
    show "?Q s" by (simp add: E_def)
  qed
  then show ?thesis by (simp add: E_def)
qed

text \<open>What one check adds to the trace.\<close>

lemma check_counts:
  assumes "checkAnimationShouldBeFinished env b qn dq s = Normal s'"
  shows "validated (trace s') = validated (trace s) @ [b]"
    and "a \<noteq> b \<Longrightarrow> completed a (trace s') = completed a (trace s)"
    and "qn = None \<or> qn = effectiveQueue (validateTweens env b (heap s)) b dq \<Longrightarrow>
         completed b (trace s') = completed b (trace s) + 1"
proof -
  obtain es where es: "trace (state_of (checkAnimationShouldBeFinished env b qn dq s))
                       = trace s @ ValidateTweens b # es" "\<forall>e \<in> set es. about b e"
    using check_trace by blast
  then have t: "trace s' = trace s @ ValidateTweens b # es" using assms by simp
  show "validated (trace s') = validated (trace s) @ [b]"
    using t validated_about [OF es(2)] by simp
  {
    assume ne: "a \<noteq> b"
    have "\<forall>e \<in> set es. e \<noteq> CompleteCall a" using es(2) ne by auto
    then have "completed a es = 0" by (rule completed_none)
    then show "completed a (trace s') = completed a (trace s)" using t ne by simp
  }
  {
    assume el: "qn = None \<or> qn = effectiveQueue (validateTweens env b (heap s)) b dq"
    have fc: "forceComplete env b (collab (ValidateTweens b) (validateTweens env b) s) = Normal s'"
      using check_eligible [OF el] assms by simp
    from forceComplete_Normal_completed [OF fc]
    show "completed b (trace s') = completed b (trace s) + 1" by simp
  }
qed

lemma check_not_about:
  assumes "a \<noteq> b"
  shows "completed a (trace (state_of (checkAnimationShouldBeFinished env b qn dq s)))
         = completed a (trace s)"
    and "BeginCall a ob \<in> set (trace (state_of (checkAnimationShouldBeFinished env b qn dq s)))
         \<longleftrightarrow> BeginCall a ob \<in> set (trace s)"
proof -
  obtain es where es: "trace (state_of (checkAnimationShouldBeFinished env b qn dq s))
                       = trace s @ ValidateTweens b # es" "\<forall>e \<in> set es. about b e"
    using check_trace by blast
  have "\<forall>e \<in> set es. e \<noteq> CompleteCall a" using es(2) assms by auto
  then have "completed a es = 0" by (rule completed_none)
  then show "completed a (trace (state_of (checkAnimationShouldBeFinished env b qn dq s)))
         = completed a (trace s)"
    using es(1) by simp
  show "BeginCall a ob \<in> set (trace (state_of (checkAnimationShouldBeFinished env b qn dq s)))
         \<longleftrightarrow> BeginCall a ob \<in> set (trace s)"
    using es assms by auto
qed

text \<open>The begin block invokes \<^verbatim>\<open>beginCall\<close> exactly as the begin step asks.\<close>

lemma beginBlock_events:
  assumes "beginBlock env a s = Normal s2"
  shows "trace s2 = trace s @ beginEvents env a (heap s)"
proof (cases "flags (calls (heap s) a) AND STARTED env = 0")
  case False
  with assms show ?thesis by (simp add: beginBlock_def beginEvents_def)
next
  case True
  with assms obtain ob where ob: "options (calls (heap s) a) = Some ob"
    by (cases "options (calls (heap s) a)") (simp_all add: beginBlock_def)
  have "trace (state_of (beginBlock env a s)) = trace s @ beginEvents env a (heap s)"
    using True ob
    by (auto simp: beginBlock_def beginEvents_def Let_def toNumber_zero split: option.splits)
  with assms show ?thesis by simp
qed

lemma stable_tweens: "stable (\<lambda>h. tweens (calls h a))"
  by (simp add: stable_def)

lemma check_shape:
  assumes el: "qn = None \<or> qn = effectiveQueue (validateTweens env a (heap s)) a dq"
    and chk: "checkAnimationShouldBeFinished env a qn dq s = Normal s'"
    and pr: "preserves (\<lambda>h. tweens (calls h a)) (beginCall env a)"
  shows "\<exists>es. trace s' = trace s @ ValidateTweens a # beginEvents env a (validateTweens env a (heap s))
                 @ es @ [CompleteCall a] \<and>
              (\<forall>e \<in> set es. isSetPropertyValue e) \<and>
              length es = length (tweens (calls (validateTweens env a (heap s)) a))"
proof -
  let ?s1 = "collab (ValidateTweens a) (validateTweens env a) s"
  have fc: "forceComplete env a ?s1 = Normal s'"
    using check_eligible [OF el] chk by simp
  from forceComplete_Normal_trace [OF fc] obtain s2 es1 es2 where
    t: "beginBlock env a ?s1 = Normal s2"
       "trace s' = trace s2 @ es2 @ [CompleteCall a]" "\<forall>e \<in> set es2. isSetPropertyValue e"
       "length es2 = length (tweens (calls (heap s2) a))"
    by blast
  have t2: "trace s2 = trace ?s1 @ beginEvents env a (heap ?s1)"
    using t(1) by (rule beginBlock_events)
  have "tweens (calls (heap (state_of (beginBlock env a ?s1))) a) = tweens (calls (heap ?s1) a)"
    using pr stable_tweens by (rule beginBlock_keeps)
  then have tw: "tweens (calls (heap s2) a) = tweens (calls (validateTweens env a (heap s)) a)"
    using t(1) by simp
  have "trace s' = trace s @ ValidateTweens a # beginEvents env a (validateTweens env a (heap s))
                 @ es2 @ [CompleteCall a]"
    using t(2) t2 by simp
  with t(3,4) tw show ?thesis by auto
qed


text \<open>Invariants of a pass with the queue filter and the default queue of the pass.\<close>

lemma finish_invariant_at:
  assumes fin: "finish env this mq fa s = Some r"
    and chk: "\<And>b t. Q t \<Longrightarrow> Q (state_of (checkAnimationShouldBeFinished env b (validateQueue mq)
                                      (Some (defaults_queue (heap s))) t))"
    and val: "\<And>b t. Q t \<Longrightarrow> Q (collab (ValidateTweens b) (validateTweens env b) t)"
    and thn: "\<And>t. Q t \<Longrightarrow> Q (collab ThenResolver (thenResolver env) t)"
    and res: "\<And>els t. Q t \<Longrightarrow> Q (collab Resolver (resolver env els) t)"
    and "Q s"
  shows "Q (state_of r)"
proof (cases "elements this")
  case None
  with fin \<open>Q s\<close> show ?thesis by (auto simp: finish_def)
next
  case (Some els)
  show ?thesis
  proof (cases "items els = []")
    case True
    with Some fin \<open>Q s\<close> show ?thesis by (auto simp: finish_def)
  next
    case False
    have nq: "\<And>s'. Q s' \<Longrightarrow> Q (notify env this els s')"
      by (rule notify_invariant [of Q env els _ this, OF thn res])
    show ?thesis
    proof (cases "isAnimation els \<and> animations els \<noteq> None")
      case True
      then obtain cs where cs: "isAnimation els" "animations els = Some cs" by auto
      let ?r1 = "finishAnimations env (validateQueue mq) (Some (defaults_queue (heap s))) cs s"
      have q1: "Q (state_of ?r1)"
        by (rule finishAnimations_invariant [OF chk \<open>Q s\<close>])
      have rr: "r = (case ?r1 of Throw e s' \<Rightarrow> Throw e s' | Normal s' \<Rightarrow> Normal (notify env this els s'))"
        using finish_bound [OF Some False cs, of env mq fa s] fin by simp
      show ?thesis
      proof (cases ?r1)
        case (Throw e s')
        with rr q1 show ?thesis by simp
      next
        case (Normal s')
        with q1 have "Q s'" by simp
        then have "Q (notify env this els s')" by (rule nq)
        with rr Normal show ?thesis by simp
      qed
    next
      case glob: False
      then have "\<not> isAnimation els \<or> animations els = None" by simp
      from finish_global [OF Some False this fin] obtain s1 r1 where
        d: "drainFirstNew env s = Some s1"
        and sw: "sweep env (Some els) (validateQueue mq) (Some (defaults_queue (heap s)))
             (if mq = MQTrue then True else fa) (first (heap s1)) s1 = Some r1"
        and r: "r = (case r1 of Throw e s' \<Rightarrow> Throw e s' | Normal s' \<Rightarrow> Normal (notify env this els s'))"
        by blast
      have "Q s1" using d val \<open>Q s\<close> by (rule drainFirstNew_invariant)
      have q1: "Q (state_of r1)"
        by (rule sweep_invariant [OF sw chk \<open>Q s1\<close>])
      show ?thesis
      proof (cases r1)
        case (Throw e s')
        with r q1 show ?thesis by simp
      next
        case (Normal s')
        with q1 have "Q s'" by simp
        then have "Q (notify env this els s')" by (rule nq)
        with r Normal show ?thesis by simp
      qed
    qed
  qed
qed

text \<open>Invariants of the checks that return, for a pass that returns.\<close>

lemma finishAnimations_Normal_invariant:
  assumes "finishAnimations env qn dq cs s = Normal s'"
    and chk: "\<And>b t t'. Q t \<Longrightarrow> checkAnimationShouldBeFinished env b qn dq t = Normal t' \<Longrightarrow> Q t'"
    and "Q s"
  shows "Q s'"
  using assms(1,3)
proof (induction cs arbitrary: s)
  case Nil
  then show ?case by simp
next
  case (Cons c cs)
  show ?case
  proof (cases "checkAnimationShouldBeFinished env c qn dq s")
    case (Throw e t)
    with Cons.prems(1) show ?thesis by simp
  next
    case (Normal t)
    have "Q t" using Cons.prems(2) Normal by (rule chk)
    moreover have "finishAnimations env qn dq cs t = Normal s'"
      using Cons.prems(1) Normal by simp
    ultimately show ?thesis by (rule Cons.IH [rotated])
  qed
qed

lemma sweep_Normal_invariant:
  assumes "sweep env els qn dq fa ac s = Some (Normal s')"
    and chk: "\<And>b t t'. Q t \<Longrightarrow> targeted els (element (calls (heap t) b)) \<Longrightarrow>
                  checkAnimationShouldBeFinished env b qn dq t = Normal t' \<Longrightarrow> Q t'"
    and "Q s"
  shows "Q s'"
proof -
  let ?P = "\<lambda>env els qn dq (fa::bool) (ac::call_id option) s r.
              (\<forall>b t t'. Q t \<longrightarrow> targeted els (element (calls (heap t) b)) \<longrightarrow>
                     checkAnimationShouldBeFinished env b qn dq t = Normal t' \<longrightarrow> Q t')
              \<longrightarrow> Q s \<longrightarrow> (\<forall>s'. r = Normal s' \<longrightarrow> Q s')"
  have "?P env els qn dq fa ac s (Normal s')"
    using assms(1)
  proof (rule sweep.raw_induct [rotated 1, where P = ?P])
    fix sw env' els' qn' dq' fa' ac' t r'
    assume IH: "\<And>e l q d f c u v. sw e l q d f c u = Some v \<Longrightarrow> ?P e l q d f c u v"
      and body: "(case ac' of
        None \<Rightarrow> Some (Normal t)
      | Some a \<Rightarrow>
          if fa' \<or> Some a \<noteq> firstNew (heap t) then
            (let nextCall = c_next (calls (heap t) a) in
             (case (if targeted els' (element (calls (heap t) a))
                    then checkAnimationShouldBeFinished env' a qn' dq' t
                    else Normal t) of
                Throw e s' \<Rightarrow> Some (Throw e s')
              | Normal s' \<Rightarrow>
                  sw env' els' qn' dq' fa'
                    (case nextCall of Some n \<Rightarrow> Some n | None \<Rightarrow> firstNew (heap s')) s'))
          else Some (Normal t)) = Some r'"
    show "?P env' els' qn' dq' fa' ac' t r'"
    proof (intro impI allI)
      fix u
      assume chk': "\<forall>b t t'. Q t \<longrightarrow> targeted els' (element (calls (heap t) b)) \<longrightarrow>
                     checkAnimationShouldBeFinished env' b qn' dq' t = Normal t' \<longrightarrow> Q t'"
        and qt: "Q t" and ru: "r' = Normal u"
      show "Q u"
      proof (cases ac')
        case None
        with body qt ru show ?thesis by auto
      next
        case (Some b)
        show ?thesis
        proof (cases "fa' \<or> Some b \<noteq> firstNew (heap t)")
          case False
          with Some body qt ru show ?thesis by auto
        next
          case True
          define r1 where "r1 = (if targeted els' (element (calls (heap t) b))
                    then checkAnimationShouldBeFinished env' b qn' dq' t
                    else Normal t)"
          show ?thesis
          proof (cases r1)
            case (Throw e s')
            then have "r' = Throw e s'"
              using body Some True by (simp add: r1_def [symmetric] Let_def)
            with ru show ?thesis by simp
          next
            case (Normal s')
            then have rec: "sw env' els' qn' dq' fa'
               (case c_next (calls (heap t) b) of Some n \<Rightarrow> Some n | None \<Rightarrow> firstNew (heap s')) s'
               = Some r'"
              using body Some True by (simp add: r1_def [symmetric] Let_def)
            have "Q s'"
            proof (cases "targeted els' (element (calls (heap t) b))")
              case False
              with Normal qt show ?thesis by (simp add: r1_def)
            next
              case tg: True
              with Normal have "checkAnimationShouldBeFinished env' b qn' dq' t = Normal s'"
                by (simp add: r1_def)
              with chk' qt tg show ?thesis by blast
            qed
            with IH [OF rec] chk' ru show ?thesis by blast
          qed
        qed
      qed
    qed
  qed
  with chk \<open>Q s\<close> show ?thesis by blast
qed

lemma sweep_trace_extends:
  assumes "sweep env els qn dq fa ac s = Some r"
  shows "\<exists>es. trace (state_of r) = trace s @ es"
proof -
  let ?Q = "\<lambda>t :: 'a mstate. \<exists>es. trace t = trace s @ es"
  show ?thesis
  proof (rule sweep_invariant [where Q = ?Q, OF assms])
    fix b and t :: "'a mstate"
    assume "?Q t" "targeted els (element (calls (heap t) b))"
    then obtain es where es: "trace t = trace s @ es" by blast
    obtain es' where "trace (state_of (checkAnimationShouldBeFinished env b qn dq t))
                       = trace t @ ValidateTweens b # es'"
      using check_trace by blast
    with es have "trace (state_of (checkAnimationShouldBeFinished env b qn dq t))
                  = trace s @ (es @ ValidateTweens b # es')" by simp
    then show "?Q (state_of (checkAnimationShouldBeFinished env b qn dq t))" by blast
  next
    show "?Q s" by simp
  qed
qed


text \<open>A call that the filter rejects is neither begun nor completed by a pass.\<close>

lemma finish_filtered:
  assumes fr: "framed env (\<lambda>h'. effectiveQueue h' a (Some (defaults_queue h)))"
    and fin: "finish env this mq fa \<lparr>heap = h, trace = []\<rparr> = Some r"
    and ne: "validateQueue mq \<noteq> None"
      "validateQueue mq \<noteq> effectiveQueue h a (Some (defaults_queue h))"
  shows "completed a (trace (state_of r)) = 0 \<and> (\<forall>ob. BeginCall a ob \<notin> set (trace (state_of r)))"
proof -
  let ?s = "\<lparr>heap = h, trace = []\<rparr> :: 'a mstate"
  let ?dq = "Some (defaults_queue h)"
  let ?Q = "\<lambda>t :: 'a mstate. effectiveQueue (heap t) a ?dq = effectiveQueue h a ?dq \<and>
              completed a (trace t) = 0 \<and> (\<forall>ob. BeginCall a ob \<notin> set (trace t))"
  from ne(1) obtain q where q: "validateQueue mq = Some q" by auto
  have "?Q (state_of r)"
  proof (rule finish_invariant_at [where Q = ?Q, OF fin])
    fix b and t :: "'a mstate" assume qt: "?Q t"
    let ?r = "checkAnimationShouldBeFinished env b (validateQueue mq) (Some (defaults_queue (heap ?s))) t"
    have k: "effectiveQueue (heap (state_of ?r)) a ?dq = effectiveQueue h a ?dq"
      using check_queue_kept [OF fr, of b "validateQueue mq" ?dq t] qt by simp
    show "?Q (state_of ?r)"
    proof (cases "b = a")
      case True
      have "effectiveQueue (validateTweens env a (heap t)) a ?dq \<noteq> Some q"
        using preservesD [OF framedD(1) [OF fr], of a "heap t"] qt ne(2) q by simp
      then have "checkAnimationShouldBeFinished env a (Some q) ?dq t =
         Normal \<lparr>heap = validateTweens env a (heap t), trace = trace t @ [ValidateTweens a]\<rparr>"
        by (rule check_unmatched)
      with qt k True q show ?thesis by simp
    next
      case False
      then have "a \<noteq> b" by simp
      from check_not_about [OF this, where env = env and qn = "validateQueue mq" and dq = ?dq and s = t] qt k show ?thesis by simp
    qed
  next
    fix b and t :: "'a mstate" assume "?Q t"
    then show "?Q (collab (ValidateTweens b) (validateTweens env b) t)"
      using preservesD [OF framedD(1) [OF fr], of b "heap t"] by simp
  next
    fix t :: "'a mstate" assume "?Q t"
    then show "?Q (collab ThenResolver (thenResolver env) t)"
      using preservesD [OF framedD(5) [OF fr], of "heap t"] by simp
  next
    fix els and t :: "'a mstate" assume "?Q t"
    then show "?Q (collab Resolver (resolver env els) t)"
      using preservesD [OF framedD(6) [OF fr], of els "heap t"] by simp
  next
    show "?Q ?s" by simp
  qed
  then show ?thesis by simp
qed

text \<open>
  A call that the filter admits is completed by each check of it that returns: the
  completions of the call are as many as its validations by a check.
\<close>

lemma check_admitted_counts:
  assumes fr: "qn = None \<or> framed env (\<lambda>h'. effectiveQueue h' a dq)"
    and el: "qn = None \<or> qn = E"
    and qt: "(qn = None \<or> effectiveQueue (heap t) a dq = E) \<and>
             count_list (validated (trace t)) a = K + completed a (trace t)"
    and chk: "checkAnimationShouldBeFinished env b qn dq t = Normal t'"
  shows "(qn = None \<or> effectiveQueue (heap t') a dq = E) \<and>
         count_list (validated (trace t')) a = K + completed a (trace t')"
proof -
  note c = check_counts [OF chk]
  have k: "qn = None \<or> effectiveQueue (heap t') a dq = E"
  proof (cases "qn = None")
    case True
    then show ?thesis by simp
  next
    case False
    with fr have f: "framed env (\<lambda>h'. effectiveQueue h' a dq)" by simp
    from check_queue_kept [OF f, of b qn dq t] chk qt False show ?thesis by simp
  qed
  have n: "count_list (validated (trace t')) a = K + completed a (trace t')"
  proof (cases "b = a")
    case False
    then have "a \<noteq> b" by simp
    from c(2) [OF this] c(1) qt False show ?thesis by simp
  next
    case True
    have "qn = None \<or> qn = effectiveQueue (validateTweens env b (heap t)) b dq"
    proof (cases "qn = None")
      case True
      then show ?thesis by simp
    next
      case False
      with fr have f: "framed env (\<lambda>h'. effectiveQueue h' a dq)" by simp
      from preservesD [OF framedD(1) [OF f], of a "heap t"] qt el False \<open>b = a\<close>
      show ?thesis by simp
    qed
    from c(3) [OF this] c(1) qt True show ?thesis by simp
  qed
  from k n show ?thesis by (rule conjI)
qed

lemma finish_bound_Normal:
  assumes "elements this = Some els" "items els \<noteq> []" "isAnimation els" "animations els = Some cs"
    and "finish env this mq fa s = Some (Normal s')"
  shows "\<exists>s''. finishAnimations env (validateQueue mq) (Some (defaults_queue (heap s))) cs s = Normal s''
               \<and> s' = notify env this els s''"
  using finish_bound [OF assms(1-4), of env mq fa s] assms(5)
  by (cases "finishAnimations env (validateQueue mq) (Some (defaults_queue (heap s))) cs s") simp_all

lemma finish_global_Normal:
  assumes "elements this = Some els" "items els \<noteq> []" "\<not> isAnimation els \<or> animations els = None"
    and "drainFirstNew env s = Some sd"
    and "finish env this mq fa s = Some (Normal s')"
  shows "\<exists>s''. sweep env (Some els) (validateQueue mq) (Some (defaults_queue (heap s)))
                 (if mq = MQTrue then True else fa) (first (heap sd)) sd = Some (Normal s'')
               \<and> s' = notify env this els s''"
proof -
  from finish_global [OF assms(1-3,5)] obtain s1 r1 where
    d: "drainFirstNew env s = Some s1"
    and sw: "sweep env (Some els) (validateQueue mq) (Some (defaults_queue (heap s)))
             (if mq = MQTrue then True else fa) (first (heap s1)) s1 = Some r1"
    and r: "Normal s' = (case r1 of Throw e t \<Rightarrow> Throw e t | Normal t \<Rightarrow> Normal (notify env this els t))"
    by blast
  from d assms(4) have "s1 = sd" by simp
  with sw r show ?thesis by (cases r1) simp_all
qed

lemma finish_admitted_counts:
  assumes fr: "validateQueue mq = None \<or> framed env (\<lambda>h'. effectiveQueue h' a (Some (defaults_queue h)))"
    and el: "validateQueue mq = None \<or> validateQueue mq = effectiveQueue h a (Some (defaults_queue h))"
    and els: "elements this = Some els" "items els \<noteq> []"
    and fin: "finish env this mq fa \<lparr>heap = h, trace = []\<rparr> = Some (Normal s')"
  shows "isAnimation els \<Longrightarrow> animations els = Some cs \<Longrightarrow>
           validated (trace s') = cs \<and> completed a (trace s') = count_list cs a"
    and "\<not> isAnimation els \<or> animations els = None \<Longrightarrow>
         drainFirstNew env \<lparr>heap = h, trace = []\<rparr> = Some sd \<Longrightarrow>
           completed a (trace s') + count_list (validated (trace sd)) a
             = count_list (validated (trace s')) a"
proof -
  let ?s = "\<lparr>heap = h, trace = []\<rparr> :: 'a mstate"
  let ?dq = "Some (defaults_queue h)"
  let ?qn = "validateQueue mq"
  let ?E = "effectiveQueue h a ?dq"
  let ?Q = "\<lambda>K (t :: 'a mstate). (?qn = None \<or> effectiveQueue (heap t) a ?dq = ?E) \<and>
               count_list (validated (trace t)) a = K + completed a (trace t)"
  have step: "\<And>K b t t'. ?Q K t \<Longrightarrow> checkAnimationShouldBeFinished env b ?qn ?dq t = Normal t'
                \<Longrightarrow> ?Q K t'"
    by (rule check_admitted_counts [OF fr el])
  {
    assume b: "isAnimation els" "animations els = Some cs"
    from finish_bound_Normal [OF els b fin] obtain s'' where
      fa: "finishAnimations env ?qn ?dq cs ?s = Normal s''" and s': "s' = notify env this els s''"
      by auto
    have "?Q 0 s''"
      using fa
    proof (rule finishAnimations_Normal_invariant [where Q = "?Q 0"])
      fix b t t' assume "?Q 0 t" "checkAnimationShouldBeFinished env b ?qn ?dq t = Normal t'"
      then show "?Q 0 t'" by (rule step)
    next
      show "?Q 0 ?s" by simp
    qed
    moreover have "validated (trace s'') = cs"
      using finishAnimations_trace [of env ?qn ?dq cs ?s] fa by auto
    ultimately show "validated (trace s') = cs \<and> completed a (trace s') = count_list cs a"
      using s' by (simp add: notify_observations)
  }
  {
    assume g: "\<not> isAnimation els \<or> animations els = None"
      and d: "drainFirstNew env ?s = Some sd"
    from finish_global_Normal [OF els g d fin] obtain s'' where
      sw: "sweep env (Some els) ?qn ?dq (if mq = MQTrue then True else fa) (first (heap sd)) sd
           = Some (Normal s'')"
      and s': "s' = notify env this els s''"
      by auto
    let ?K = "count_list (validated (trace sd)) a"
    have c0: "completed a (trace sd) = 0"
      using drainFirstNew_only_validates [OF d, of a] by simp
    have k0: "?qn = None \<or> effectiveQueue (heap sd) a ?dq = ?E"
    proof (cases "?qn = None")
      case True
      then show ?thesis by simp
    next
      case False
      with fr have f: "framed env (\<lambda>h'. effectiveQueue h' a ?dq)" by simp
      let ?I = "\<lambda>t :: 'a mstate. effectiveQueue (heap t) a ?dq = ?E"
      have "?I sd"
      proof (rule drainFirstNew_invariant [where Q = ?I, OF d])
        fix b and t :: "'a mstate" assume "?I t"
        then show "?I (collab (ValidateTweens b) (validateTweens env b) t)"
          using preservesD [OF framedD(1) [OF f], of b "heap t"] by simp
      next
        show "?I ?s" by simp
      qed
      then show ?thesis by simp
    qed
    have "?Q ?K s''"
      using sw
    proof (rule sweep_Normal_invariant [where Q = "?Q ?K"])
      fix b t t' assume "?Q ?K t" "checkAnimationShouldBeFinished env b ?qn ?dq t = Normal t'"
      then show "?Q ?K t'" by (rule step)
    next
      show "?Q ?K sd" using c0 k0 by simp
    qed
    then show "completed a (trace s') + count_list (validated (trace sd)) a
             = count_list (validated (trace s')) a"
      using s' by (simp add: notify_observations)
  }
qed


text \<open>The first check of a pass, on a call that the filter admits.\<close>

lemma drainFirstNew_queue_kept:
  assumes fr: "framed env (\<lambda>h'. effectiveQueue h' a dq)"
    and d: "drainFirstNew env s = Some sd"
  shows "effectiveQueue (heap sd) a dq = effectiveQueue (heap s) a dq"
proof -
  let ?I = "\<lambda>t :: 'a mstate. effectiveQueue (heap t) a dq = effectiveQueue (heap s) a dq"
  show ?thesis
  proof (rule drainFirstNew_invariant [where Q = ?I, OF d])
    fix b and t :: "'a mstate" assume "?I t"
    then show "?I (collab (ValidateTweens b) (validateTweens env b) t)"
      using preservesD [OF framedD(1) [OF fr], of b "heap t"] by simp
  next
    show "?I s" by simp
  qed
qed

lemma finish_bound_head:
  assumes els: "elements this = Some els" "items els \<noteq> []"
    and b: "isAnimation els" "animations els = Some (a # rest)"
    and el: "validateQueue mq = None \<or>
             validateQueue mq = effectiveQueue (validateTweens env a h) a (Some (defaults_queue h))"
    and pr: "preserves (\<lambda>h'. tweens (calls h' a)) (beginCall env a)"
    and fin: "finish env this mq fa \<lparr>heap = h, trace = []\<rparr> = Some (Normal s')"
  shows "\<exists>es post. trace s' = ValidateTweens a # beginEvents env a (validateTweens env a h)
                       @ es @ CompleteCall a # post \<and>
                    (\<forall>e \<in> set es. isSetPropertyValue e) \<and>
                    length es = length (tweens (calls (validateTweens env a h) a))"
proof -
  let ?s = "\<lparr>heap = h, trace = []\<rparr> :: 'a mstate"
  let ?dq = "Some (defaults_queue h)"
  let ?qn = "validateQueue mq"
  from finish_bound_Normal [OF els b fin] obtain s'' where
    fa: "finishAnimations env ?qn ?dq (a # rest) ?s = Normal s''"
    and s': "s' = notify env this els s''"
    by auto
  from fa obtain s1 where chk: "checkAnimationShouldBeFinished env a ?qn ?dq ?s = Normal s1"
    and rst: "finishAnimations env ?qn ?dq rest s1 = Normal s''"
    by (cases "checkAnimationShouldBeFinished env a ?qn ?dq ?s") simp_all
  have el': "?qn = None \<or> ?qn = effectiveQueue (validateTweens env a (heap ?s)) a ?dq"
    using el by simp
  from check_shape [OF el' chk pr] obtain es where
    es: "trace s1 = ValidateTweens a # beginEvents env a (validateTweens env a h) @ es @ [CompleteCall a]"
      "\<forall>e \<in> set es. isSetPropertyValue e"
      "length es = length (tweens (calls (validateTweens env a h) a))"
    by auto
  obtain es' where es': "trace s'' = trace s1 @ es'"
    using finishAnimations_trace [of env ?qn ?dq rest s1] rst by auto
  obtain ns where ns: "trace s' = trace s'' @ ns"
    using notify_trace [of env this els s''] s' by auto
  have "trace s' = ValidateTweens a # beginEvents env a (validateTweens env a h)
                       @ es @ CompleteCall a # (es' @ ns)"
    using es(1) es' ns by simp
  with es(2,3) show ?thesis by blast
qed

lemma finish_global_head:
  assumes els: "elements this = Some els" "items els \<noteq> []"
    and g: "\<not> isAnimation els \<or> animations els = None"
    and d: "drainFirstNew env \<lparr>heap = h, trace = []\<rparr> = Some sd"
    and hd: "first (heap sd) = Some a" "targeted (Some els) (element (calls (heap sd) a))"
    and el: "validateQueue mq = None \<or>
             validateQueue mq = effectiveQueue (validateTweens env a (heap sd)) a (Some (defaults_queue h))"
    and pr: "preserves (\<lambda>h'. tweens (calls h' a)) (beginCall env a)"
    and fin: "finish env this mq fa \<lparr>heap = h, trace = []\<rparr> = Some (Normal s')"
  shows "\<exists>es post. trace s' = trace sd @ ValidateTweens a # beginEvents env a (validateTweens env a (heap sd))
                       @ es @ CompleteCall a # post \<and>
                    (\<forall>e \<in> set es. isSetPropertyValue e) \<and>
                    length es = length (tweens (calls (validateTweens env a (heap sd)) a))"
proof -
  let ?s = "\<lparr>heap = h, trace = []\<rparr> :: 'a mstate"
  let ?dq = "Some (defaults_queue h)"
  let ?qn = "validateQueue mq"
  define fa' where "fa' = (if mq = MQTrue then True else fa)"
  from finish_global_Normal [OF els g d fin] obtain s'' where
    sw: "sweep env (Some els) ?qn ?dq fa' (Some a) sd = Some (Normal s'')"
    and s': "s' = notify env this els s''"
    by (auto simp: hd(1) fa'_def)
  have un: "firstNew (heap sd) = None" using d by (rule drainFirstNew_unstaged)
  obtain s1 where chk: "checkAnimationShouldBeFinished env a ?qn ?dq sd = Normal s1"
  proof (cases "checkAnimationShouldBeFinished env a ?qn ?dq sd")
    case (Normal s1)
    then show ?thesis by (rule that)
  next
    case (Throw e t)
    have "sweep env (Some els) ?qn ?dq fa' (Some a) sd = Some (Throw e t)"
      using un hd(2) Throw by (subst sweep.simps) (simp add: Let_def)
    with sw show ?thesis by simp
  qed
  have "sweep env (Some els) ?qn ?dq fa' (Some a) sd
        = sweep env (Some els) ?qn ?dq fa'
            (case c_next (calls (heap sd) a) of Some n \<Rightarrow> Some n | None \<Rightarrow> firstNew (heap s1)) s1"
    using un hd(2) by (intro sweep_step [OF _ _ chk]) simp_all
  with sw have "sweep env (Some els) ?qn ?dq fa'
            (case c_next (calls (heap sd) a) of Some n \<Rightarrow> Some n | None \<Rightarrow> firstNew (heap s1)) s1
            = Some (Normal s'')"
    by simp
  from sweep_trace_extends [OF this] obtain es' where es': "trace s'' = trace s1 @ es'"
    by auto
  from check_shape [OF el chk pr] obtain es where
    es: "trace s1 = trace sd @ ValidateTweens a # beginEvents env a (validateTweens env a (heap sd))
                      @ es @ [CompleteCall a]"
      "\<forall>e \<in> set es. isSetPropertyValue e"
      "length es = length (tweens (calls (validateTweens env a (heap sd)) a))"
    by auto
  obtain ns where ns: "trace s' = trace s'' @ ns"
    using notify_trace [of env this els s''] s' by auto
  have "trace s' = trace sd @ ValidateTweens a # beginEvents env a (validateTweens env a (heap sd))
                       @ es @ CompleteCall a # (es' @ ns)"
    using es(1) es' ns by simp
  with es(2,3) show ?thesis by blast
qed

text \<open>
  C3: the queue filter of an invocation of \<^verbatim>\<open>finish\<close> is \<^verbatim>\<open>validateQueue(maybeQueueName)\<close>,
  the default queue is \<^verbatim>\<open>defaults.queue\<close>, and both branches hand them to every check.
  For a call \<open>a\<close> whose effective queue (\<^verbatim>\<open>call.queue\<close>, else \<^verbatim>\<open>options.queue\<close>, else the
  default queue) the collaborators leave as it is:

  \<^item> when a filter is given and differs from the effective queue of \<open>a\<close>, no invocation
    that returns, bound or global, with or without exception, has invoked the begin
    callback or \<^verbatim>\<open>completeCall\<close> for \<open>a\<close>;

  \<^item> when the filter is undefined or equals the effective queue of \<open>a\<close> and the
    invocation returns without exception: in the bound branch every call of the set is
    validated and \<open>a\<close> is completed once for each of its occurrences in the set; in the
    global branch \<open>a\<close> is completed once for each check of it in the walk;

  \<^item> in both branches, when \<open>a\<close> is the first call to be checked, the trace of the
    invocation goes on with the validation of \<open>a\<close>, the call of \<^verbatim>\<open>beginCall\<close> that the
    begin step asks for, one \<^verbatim>\<open>setPropertyValue\<close> for each tween of \<open>a\<close>, and
    \<^verbatim>\<open>completeCall\<close> for \<open>a\<close>.
\<close>

theorem queue_filter:
  assumes "validateQueue mq = None \<or> framed env (\<lambda>h'. effectiveQueue h' a (Some (defaults_queue h)))"
    and "preserves (\<lambda>h'. tweens (calls h' a)) (beginCall env a)"
    and "finish env this mq fa \<lparr>heap = h, trace = []\<rparr> = Some r"
  shows "(validateQueue mq \<noteq> None \<and> validateQueue mq \<noteq> effectiveQueue h a (Some (defaults_queue h)) \<longrightarrow>
            completed a (trace (state_of r)) = 0 \<and> (\<forall>ob. BeginCall a ob \<notin> set (trace (state_of r)))) \<and>
         ((validateQueue mq = None \<or> validateQueue mq = effectiveQueue h a (Some (defaults_queue h))) \<and>
          is_Normal r \<longrightarrow>
            (\<forall>els cs. elements this = Some els \<and> items els \<noteq> [] \<and>
                      isAnimation els \<and> animations els = Some cs \<longrightarrow>
               validated (trace (state_of r)) = cs \<and>
               completed a (trace (state_of r)) = count_list cs a \<and>
               (\<forall>rest. cs = a # rest \<longrightarrow>
                  (\<exists>es post. trace (state_of r) =
                       ValidateTweens a # beginEvents env a (validateTweens env a h)
                         @ es @ CompleteCall a # post \<and>
                     (\<forall>e \<in> set es. isSetPropertyValue e) \<and>
                     length es = length (tweens (calls (validateTweens env a h) a))))) \<and>
            (\<forall>els sd. elements this = Some els \<and> items els \<noteq> [] \<and>
                      (\<not> isAnimation els \<or> animations els = None) \<and>
                      drainFirstNew env \<lparr>heap = h, trace = []\<rparr> = Some sd \<longrightarrow>
               completed a (trace (state_of r)) + count_list (validated (trace sd)) a
                 = count_list (validated (trace (state_of r))) a \<and>
               (first (heap sd) = Some a \<and> targeted (Some els) (element (calls (heap sd) a)) \<longrightarrow>
                  (\<exists>es post. trace (state_of r) =
                       trace sd @ ValidateTweens a # beginEvents env a (validateTweens env a (heap sd))
                         @ es @ CompleteCall a # post \<and>
                     (\<forall>e \<in> set es. isSetPropertyValue e) \<and>
                     length es = length (tweens (calls (validateTweens env a (heap sd)) a))))))"
proof -
  let ?s = "\<lparr>heap = h, trace = []\<rparr> :: 'a mstate"
  let ?dq = "Some (defaults_queue h)"
  let ?qn = "validateQueue mq"
  let ?T = "trace (state_of r)"
  note fr = assms(1) and pr = assms(2) and fin = assms(3)
  have A: "?qn \<noteq> None \<and> ?qn \<noteq> effectiveQueue h a ?dq \<longrightarrow>
            completed a ?T = 0 \<and> (\<forall>ob. BeginCall a ob \<notin> set ?T)"
  proof
    assume ne: "?qn \<noteq> None \<and> ?qn \<noteq> effectiveQueue h a ?dq"
    with fr have f: "framed env (\<lambda>h'. effectiveQueue h' a ?dq)" by simp
    from ne show "completed a ?T = 0 \<and> (\<forall>ob. BeginCall a ob \<notin> set ?T)"
      by (intro finish_filtered [OF f fin]) simp_all
  qed
  have B: "(?qn = None \<or> ?qn = effectiveQueue h a ?dq) \<and> is_Normal r \<longrightarrow>
            (\<forall>els cs. elements this = Some els \<and> items els \<noteq> [] \<and>
                      isAnimation els \<and> animations els = Some cs \<longrightarrow>
               validated ?T = cs \<and> completed a ?T = count_list cs a \<and>
               (\<forall>rest. cs = a # rest \<longrightarrow>
                  (\<exists>es post. ?T = ValidateTweens a # beginEvents env a (validateTweens env a h)
                         @ es @ CompleteCall a # post \<and>
                     (\<forall>e \<in> set es. isSetPropertyValue e) \<and>
                     length es = length (tweens (calls (validateTweens env a h) a))))) \<and>
            (\<forall>els sd. elements this = Some els \<and> items els \<noteq> [] \<and>
                      (\<not> isAnimation els \<or> animations els = None) \<and>
                      drainFirstNew env ?s = Some sd \<longrightarrow>
               completed a ?T + count_list (validated (trace sd)) a = count_list (validated ?T) a \<and>
               (first (heap sd) = Some a \<and> targeted (Some els) (element (calls (heap sd) a)) \<longrightarrow>
                  (\<exists>es post. ?T =
                       trace sd @ ValidateTweens a # beginEvents env a (validateTweens env a (heap sd))
                         @ es @ CompleteCall a # post \<and>
                     (\<forall>e \<in> set es. isSetPropertyValue e) \<and>
                     length es = length (tweens (calls (validateTweens env a (heap sd)) a)))))"
  proof
    assume "(?qn = None \<or> ?qn = effectiveQueue h a ?dq) \<and> is_Normal r"
    then have el: "?qn = None \<or> ?qn = effectiveQueue h a ?dq" and n: "is_Normal r" by simp_all
    from n obtain s' where r: "r = Normal s'" by (cases r) simp_all
    have fin': "finish env this mq fa ?s = Some (Normal s')" using fin r by simp
    have T: "?T = trace s'" using r by simp
    have B1: "\<forall>els cs. elements this = Some els \<and> items els \<noteq> [] \<and>
                      isAnimation els \<and> animations els = Some cs \<longrightarrow>
               validated ?T = cs \<and> completed a ?T = count_list cs a \<and>
               (\<forall>rest. cs = a # rest \<longrightarrow>
                  (\<exists>es post. ?T = ValidateTweens a # beginEvents env a (validateTweens env a h)
                         @ es @ CompleteCall a # post \<and>
                     (\<forall>e \<in> set es. isSetPropertyValue e) \<and>
                     length es = length (tweens (calls (validateTweens env a h) a))))"
    proof (intro allI impI)
      fix els cs
      assume "elements this = Some els \<and> items els \<noteq> [] \<and> isAnimation els \<and> animations els = Some cs"
      then have els: "elements this = Some els" "items els \<noteq> []"
        and b: "isAnimation els" "animations els = Some cs" by simp_all
      have c: "validated (trace s') = cs \<and> completed a (trace s') = count_list cs a"
        using b by (rule finish_admitted_counts(1) [OF fr el els fin'])
      have hd: "\<forall>rest. cs = a # rest \<longrightarrow>
                  (\<exists>es post. trace s' = ValidateTweens a # beginEvents env a (validateTweens env a h)
                         @ es @ CompleteCall a # post \<and>
                     (\<forall>e \<in> set es. isSetPropertyValue e) \<and>
                     length es = length (tweens (calls (validateTweens env a h) a)))"
      proof (intro allI impI)
        fix rest assume cs: "cs = a # rest"
        have el': "?qn = None \<or> ?qn = effectiveQueue (validateTweens env a h) a ?dq"
        proof (cases "?qn = None")
          case True
          then show ?thesis by simp
        next
          case False
          with fr have f: "framed env (\<lambda>h'. effectiveQueue h' a ?dq)" by simp
          from preservesD [OF framedD(1) [OF f], of a h] el False show ?thesis by simp
        qed
        from b(2) cs have b2: "animations els = Some (a # rest)" by simp
        show "\<exists>es post. trace s' = ValidateTweens a # beginEvents env a (validateTweens env a h)
                         @ es @ CompleteCall a # post \<and>
                     (\<forall>e \<in> set es. isSetPropertyValue e) \<and>
                     length es = length (tweens (calls (validateTweens env a h) a))"
          by (rule finish_bound_head [OF els b(1) b2 el' pr fin'])
      qed
      from c hd show "validated ?T = cs \<and> completed a ?T = count_list cs a \<and>
               (\<forall>rest. cs = a # rest \<longrightarrow>
                  (\<exists>es post. ?T = ValidateTweens a # beginEvents env a (validateTweens env a h)
                         @ es @ CompleteCall a # post \<and>
                     (\<forall>e \<in> set es. isSetPropertyValue e) \<and>
                     length es = length (tweens (calls (validateTweens env a h) a))))"
        unfolding T by simp
    qed
    have B2: "\<forall>els sd. elements this = Some els \<and> items els \<noteq> [] \<and>
                      (\<not> isAnimation els \<or> animations els = None) \<and>
                      drainFirstNew env ?s = Some sd \<longrightarrow>
               completed a ?T + count_list (validated (trace sd)) a = count_list (validated ?T) a \<and>
               (first (heap sd) = Some a \<and> targeted (Some els) (element (calls (heap sd) a)) \<longrightarrow>
                  (\<exists>es post. ?T =
                       trace sd @ ValidateTweens a # beginEvents env a (validateTweens env a (heap sd))
                         @ es @ CompleteCall a # post \<and>
                     (\<forall>e \<in> set es. isSetPropertyValue e) \<and>
                     length es = length (tweens (calls (validateTweens env a (heap sd)) a))))"
    proof (intro allI impI)
      fix els sd
      assume "elements this = Some els \<and> items els \<noteq> [] \<and>
                      (\<not> isAnimation els \<or> animations els = None) \<and>
                      drainFirstNew env ?s = Some sd"
      then have els: "elements this = Some els" "items els \<noteq> []"
        and g: "\<not> isAnimation els \<or> animations els = None"
        and d: "drainFirstNew env ?s = Some sd" by simp_all
      have c: "completed a (trace s') + count_list (validated (trace sd)) a
               = count_list (validated (trace s')) a"
        using g d by (rule finish_admitted_counts(2) [OF fr el els fin'])
      have hd: "first (heap sd) = Some a \<and> targeted (Some els) (element (calls (heap sd) a)) \<longrightarrow>
                  (\<exists>es post. trace s' =
                       trace sd @ ValidateTweens a # beginEvents env a (validateTweens env a (heap sd))
                         @ es @ CompleteCall a # post \<and>
                     (\<forall>e \<in> set es. isSetPropertyValue e) \<and>
                     length es = length (tweens (calls (validateTweens env a (heap sd)) a)))"
      proof
        assume "first (heap sd) = Some a \<and> targeted (Some els) (element (calls (heap sd) a))"
        then have h1: "first (heap sd) = Some a"
          and h2: "targeted (Some els) (element (calls (heap sd) a))" by simp_all
        have el': "?qn = None \<or> ?qn = effectiveQueue (validateTweens env a (heap sd)) a ?dq"
        proof (cases "?qn = None")
          case True
          then show ?thesis by simp
        next
          case False
          with fr have f: "framed env (\<lambda>h'. effectiveQueue h' a ?dq)" by simp
          from preservesD [OF framedD(1) [OF f], of a "heap sd"]
            drainFirstNew_queue_kept [OF f d] el False
          show ?thesis by simp
        qed
        show "\<exists>es post. trace s' =
                       trace sd @ ValidateTweens a # beginEvents env a (validateTweens env a (heap sd))
                         @ es @ CompleteCall a # post \<and>
                     (\<forall>e \<in> set es. isSetPropertyValue e) \<and>
                     length es = length (tweens (calls (validateTweens env a (heap sd)) a))"
          by (rule finish_global_head [OF els g d h1 h2 el' pr fin'])
      qed
      from c hd show "completed a ?T + count_list (validated (trace sd)) a = count_list (validated ?T) a \<and>
               (first (heap sd) = Some a \<and> targeted (Some els) (element (calls (heap sd) a)) \<longrightarrow>
                  (\<exists>es post. ?T =
                       trace sd @ ValidateTweens a # beginEvents env a (validateTweens env a (heap sd))
                         @ es @ CompleteCall a # post \<and>
                     (\<forall>e \<in> set es. isSetPropertyValue e) \<and>
                     length es = length (tweens (calls (validateTweens env a (heap sd)) a))))"
        unfolding T by simp
    qed
    from B1 B2 show "(\<forall>els cs. elements this = Some els \<and> items els \<noteq> [] \<and>
                      isAnimation els \<and> animations els = Some cs \<longrightarrow>
               validated ?T = cs \<and> completed a ?T = count_list cs a \<and>
               (\<forall>rest. cs = a # rest \<longrightarrow>
                  (\<exists>es post. ?T = ValidateTweens a # beginEvents env a (validateTweens env a h)
                         @ es @ CompleteCall a # post \<and>
                     (\<forall>e \<in> set es. isSetPropertyValue e) \<and>
                     length es = length (tweens (calls (validateTweens env a h) a))))) \<and>
            (\<forall>els sd. elements this = Some els \<and> items els \<noteq> [] \<and>
                      (\<not> isAnimation els \<or> animations els = None) \<and>
                      drainFirstNew env ?s = Some sd \<longrightarrow>
               completed a ?T + count_list (validated (trace sd)) a = count_list (validated ?T) a \<and>
               (first (heap sd) = Some a \<and> targeted (Some els) (element (calls (heap sd) a)) \<longrightarrow>
                  (\<exists>es post. ?T =
                       trace sd @ ValidateTweens a # beginEvents env a (validateTweens env a (heap sd))
                         @ es @ CompleteCall a # post \<and>
                     (\<forall>e \<in> set es. isSetPropertyValue e) \<and>
                     length es = length (tweens (calls (validateTweens env a (heap sd)) a)))))"
      by (rule conjI)
  qed
  from A B show ?thesis by (rule conjI)
qed


theorem queue_filter_witness:
  "(\<exists>r. finish exEnv exBoundThis (MQString ''x'') False exStart = Some r \<and>
        completed 0 (trace (state_of r)) = 0 \<and> (\<forall>ob. BeginCall 0 ob \<notin> set (trace (state_of r)))) \<and>
   (\<exists>r es post. finish exEnv exBoundThis (MQString ''y'') False exStart = Some r \<and> is_Normal r \<and>
        validated (trace (state_of r)) = [0, 1] \<and> completed 0 (trace (state_of r)) = 1 \<and>
        trace (state_of r) = ValidateTweens 0 # BeginCall 0 0 # es @ CompleteCall 0 # post \<and>
        (\<forall>e \<in> set es. isSetPropertyValue e) \<and> length es = 1) \<and>
   (\<exists>r es post. finish exEnv exGlobalThis (MQString ''y'') False exStart = Some r \<and> is_Normal r \<and>
        completed 0 (trace (state_of r)) = count_list (validated (trace (state_of r))) 0 \<and>
        trace (state_of r) = ValidateTweens 0 # BeginCall 0 0 # es @ CompleteCall 0 # post \<and>
        (\<forall>e \<in> set es. isSetPropertyValue e) \<and> length es = 1)"
proof -
  let ?h = "exHeap 250"
  let ?s = "\<lparr>heap = ?h, trace = []\<rparr>"
  let ?dq = "Some (defaults_queue ?h)"
  let ?bound = "exElements\<lparr>isAnimation := True, animations := Some [0, 1]\<rparr>"
  have st: "exStart = ?s" by (simp add: exStart_def)
  have kv: "\<And>b h'. queue (calls (exValidateTweens b h') 0) = queue (calls h' 0) \<and>
                   options (calls (exValidateTweens b h') 0) = options (calls h' 0) \<and>
                   opts (exValidateTweens b h') = opts h'"
    by (simp add: exValidateTweens_def Let_def)
  have kc: "\<And>b h'. calls (exCompleteCall b h') = calls h' \<and> opts (exCompleteCall b h') = opts h'"
    by (simp add: exCompleteCall_def)
  have fr: "framed exEnv (\<lambda>h'. effectiveQueue h' 0 ?dq)"
    by (simp add: framed_def preserves_def effectiveQueue_def kv kc cong: option.case_cong)
  have pr: "preserves (\<lambda>h'. tweens (calls h' 0)) (beginCall exEnv 0)"
    by (simp add: preserves_def)
  have eq: "effectiveQueue ?h 0 ?dq = Some (QName ''y'')"
    by (simp add: effectiveQueue_def ex_defs)
  have be: "beginEvents exEnv 0 (validateTweens exEnv 0 ?h) = [BeginCall 0 0]"
    by (simp add: beginEvents_def ex_defs Let_def)
  have tw: "length (tweens (calls (validateTweens exEnv 0 ?h) 0)) = 1"
    by (simp add: ex_defs Let_def)
  have eb: "elements exBoundThis = Some ?bound" "items ?bound \<noteq> []" "isAnimation ?bound"
    "animations ?bound = Some [0, 1]"
    by (simp_all add: exBoundThis_def exElements_def)
  have eg: "elements exGlobalThis = Some exElements" "items exElements \<noteq> []"
    "\<not> isAnimation exElements \<or> animations exElements = None"
    by (simp_all add: exGlobalThis_def exElements_def)

  have W1: "\<exists>r. finish exEnv exBoundThis (MQString ''x'') False exStart = Some r \<and>
        completed 0 (trace (state_of r)) = 0 \<and> (\<forall>ob. BeginCall 0 ob \<notin> set (trace (state_of r)))"
  proof -
    obtain r where fin: "finish exEnv exBoundThis (MQString ''x'') False ?s = Some r"
      using finish_bound [OF eb, of exEnv "MQString ''x''" False ?s] by simp
    have ne: "validateQueue (MQString ''x'') \<noteq> None \<and>
              validateQueue (MQString ''x'') \<noteq> effectiveQueue ?h 0 ?dq"
      by (simp add: eq)
    from queue_filter [OF disjI2 [OF fr] pr fin, THEN conjunct1, THEN mp, OF ne] fin
    show ?thesis unfolding st by blast
  qed

  have W2: "\<exists>r es post. finish exEnv exBoundThis (MQString ''y'') False exStart = Some r \<and> is_Normal r \<and>
        validated (trace (state_of r)) = [0, 1] \<and> completed 0 (trace (state_of r)) = 1 \<and>
        trace (state_of r) = ValidateTweens 0 # BeginCall 0 0 # es @ CompleteCall 0 # post \<and>
        (\<forall>e \<in> set es. isSetPropertyValue e) \<and> length es = 1"
  proof -
    define fa2 where "fa2 = finishAnimations exEnv (validateQueue (MQString ''y''))
                              (Some (defaults_queue (heap ?s))) [0, 1] ?s"
    have n2: "is_Normal fa2"
      unfolding fa2_def by (simp add: eval_defs)
    define r where "r = (case fa2 of Throw e s' \<Rightarrow> Throw e s'
                         | Normal s' \<Rightarrow> Normal (notify exEnv exBoundThis ?bound s'))"
    have fin: "finish exEnv exBoundThis (MQString ''y'') False ?s = Some r"
      unfolding r_def fa2_def by (rule finish_bound [OF eb])
    have n: "is_Normal r" using n2 by (cases fa2) (simp_all add: r_def)
    have el: "(validateQueue (MQString ''y'') = None \<or>
               validateQueue (MQString ''y'') = effectiveQueue ?h 0 ?dq) \<and> is_Normal r"
      using n by (simp add: eq)
    have b: "elements exBoundThis = Some ?bound \<and> items ?bound \<noteq> [] \<and>
             isAnimation ?bound \<and> animations ?bound = Some [0, 1]"
      using eb by simp
    note T = queue_filter [OF disjI2 [OF fr] pr fin, THEN conjunct2, THEN mp, OF el,
        THEN conjunct1, THEN spec, THEN spec, THEN mp, OF b]
    from T have v: "validated (trace (state_of r)) = [0, 1]"
      and c: "completed 0 (trace (state_of r)) = count_list [0, 1 :: nat] 0"
      by simp_all
    from T have "\<exists>es post. trace (state_of r) =
                       ValidateTweens 0 # beginEvents exEnv 0 (validateTweens exEnv 0 ?h)
                         @ es @ CompleteCall 0 # post \<and>
                     (\<forall>e \<in> set es. isSetPropertyValue e) \<and>
                     length es = length (tweens (calls (validateTweens exEnv 0 ?h) 0))"
      by blast
    then obtain es post where
      sh: "trace (state_of r) = ValidateTweens 0 # BeginCall 0 0 # es @ CompleteCall 0 # post"
        "\<forall>e \<in> set es. isSetPropertyValue e" "length es = 1"
      unfolding be tw by auto
    have c1: "completed 0 (trace (state_of r)) = 1" using c by simp
    from fin n v c1 sh show ?thesis unfolding st by blast
  qed

  have W3: "\<exists>r es post. finish exEnv exGlobalThis (MQString ''y'') False exStart = Some r \<and> is_Normal r \<and>
        completed 0 (trace (state_of r)) = count_list (validated (trace (state_of r))) 0 \<and>
        trace (state_of r) = ValidateTweens 0 # BeginCall 0 0 # es @ CompleteCall 0 # post \<and>
        (\<forall>e \<in> set es. isSetPropertyValue e) \<and> length es = 1"
  proof -
    let ?qn = "validateQueue (MQString ''y'')"
    have d: "drainFirstNew exEnv ?s = Some ?s"
      by (rule drainFirstNew_empty) (simp add: exHeap_def)
    define s1 where "s1 = state_of (checkAnimationShouldBeFinished exEnv 0 ?qn ?dq ?s)"
    have n1: "is_Normal (checkAnimationShouldBeFinished exEnv 0 ?qn ?dq ?s)"
      by (simp add: eval_defs)
    then have chk: "checkAnimationShouldBeFinished exEnv 0 ?qn ?dq ?s = Normal s1"
      unfolding s1_def by (cases "checkAnimationShouldBeFinished exEnv 0 ?qn ?dq ?s") simp_all
    have h1: "firstNew (heap s1) = None"
      unfolding s1_def by (simp add: eval_defs)
    have h0: "first (heap ?s) = Some 0" "c_next (calls (heap ?s) 0) = None"
      "targeted (Some exElements) (element (calls (heap ?s) 0))" "firstNew (heap ?s) = None"
      by (simp_all add: ex_defs targeted_def)
    have "sweep exEnv (Some exElements) ?qn ?dq False (Some 0) ?s
          = sweep exEnv (Some exElements) ?qn ?dq False
              (case c_next (calls (heap ?s) 0) of Some n \<Rightarrow> Some n | None \<Rightarrow> firstNew (heap s1)) s1"
      using h0 by (intro sweep_step [OF _ _ chk]) simp_all
    also have "\<dots> = Some (Normal s1)"
      using h0(2) h1 by (simp add: sweep_end)
    finally have sw: "sweep exEnv (Some exElements) ?qn (Some (defaults_queue (heap ?s)))
        (if MQString ''y'' = MQTrue then True else False) (first (heap ?s)) ?s = Some (Normal s1)"
      using h0(1) by simp
    define r where "r = Normal (notify exEnv exGlobalThis exElements s1)"
    have fin: "finish exEnv exGlobalThis (MQString ''y'') False ?s = Some r"
      using finish_global_result [OF eg d sw] by (simp add: r_def)
    have n: "is_Normal r" by (simp add: r_def)
    have el: "(validateQueue (MQString ''y'') = None \<or>
               validateQueue (MQString ''y'') = effectiveQueue ?h 0 ?dq) \<and> is_Normal r"
      using n by (simp add: eq)
    have g: "elements exGlobalThis = Some exElements \<and> items exElements \<noteq> [] \<and>
             (\<not> isAnimation exElements \<or> animations exElements = None) \<and>
             drainFirstNew exEnv ?s = Some ?s"
      using eg d by simp
    note T = queue_filter [OF disjI2 [OF fr] pr fin, THEN conjunct2, THEN mp, OF el,
        THEN conjunct2, THEN spec, THEN spec, THEN mp, OF g]
    from T have c: "completed 0 (trace (state_of r)) = count_list (validated (trace (state_of r))) 0"
      by simp
    have hd: "first (heap ?s) = Some 0 \<and> targeted (Some exElements) (element (calls (heap ?s) 0))"
      using h0 by simp
    from T [THEN conjunct2, THEN mp, OF hd]
    obtain es post where
      sh: "trace (state_of r) = ValidateTweens 0 # BeginCall 0 0 # es @ CompleteCall 0 # post"
        "\<forall>e \<in> set es. isSetPropertyValue e" "length es = 1"
      using be tw by auto
    from fin n c sh show ?thesis unfolding st by blast
  qed
  from W1 W2 W3 show ?thesis by blast
qed


subsection \<open>The boundary of the staging list\<close>












end
